theory Spec2Isabelle
  imports Main "HOL-Library.Finite_Map"
begin

section \<open>The automaton model (class DFA)\<close>

text \<open>
  States and symbols are Python strings. A Python set is the list of its members in
  iteration order: \<open>x in s\<close> is \<open>x \<in> set s\<close> and \<open>s.add(x)\<close> is \<open>set_add x s\<close>. Python
  fixes no iteration order, and no theorem below depends on the one chosen here. A Python
  dict is a finite map.

  \<open>__init__\<close> stores the sets and the dict it is given, not copies, and
  \<open>complete_with_sink\<close> changes them in place. So the fields of a DFA object hold
  addresses (\<open>dfa_object\<close>), the sets and dicts live in a \<open>heap\<close>, and two fields, of
  one object or of two, may hold the same address. The name and the start state are
  strings, which nothing can change, and are kept in the object. \<open>view h self\<close> is what
  the fields of \<open>self\<close> hold in the heap \<open>h\<close>: the automaton (a \<open>dfa\<close>) as the methods
  read it. A method that changes nothing (\<open>is_complete\<close>, \<open>accepts\<close>) is a function of
  that automaton.
\<close>

type_synonym state = string

type_synonym symbol = string

type_synonym pair = "state \<times> state"

type_synonym trans = "(state \<times> symbol, state) fmap"

type_synonym parents = "(pair, pair \<times> symbol) fmap"

definition set_add :: "'a \<Rightarrow> 'a list \<Rightarrow> 'a list" where
  "set_add x xs = (if x \<in> set xs then xs else xs @ [x])"

definition set_union :: "'a list \<Rightarrow> 'a list \<Rightarrow> 'a list" where
  "set_union xs ys = fold set_add ys xs"

record dfa =
  name :: string
  states :: "state list"
  alphabet :: "symbol list"
  start_state :: state
  accept_states :: "state list"
  transitions :: trans

type_synonym ref = nat

record dfa_object =
  obj_name :: string
  states_at :: ref
  alphabet_at :: ref
  obj_start_state :: state
  accept_states_at :: ref
  transitions_at :: ref

record heap =
  sets :: "ref \<Rightarrow> string list"
  dicts :: "ref \<Rightarrow> trans"

definition view :: "heap \<Rightarrow> dfa_object \<Rightarrow> dfa" where
  "view h self =
     \<lparr>name = obj_name self, states = sets h (states_at self),
      alphabet = sets h (alphabet_at self), start_state = obj_start_state self,
      accept_states = sets h (accept_states_at self),
      transitions = dicts h (transitions_at self)\<rparr>"

definition is_complete :: "dfa \<Rightarrow> bool" where
  "is_complete d =
     list_all (\<lambda>q. list_all (\<lambda>a. fmlookup (transitions d) (q, a) \<noteq> None) (alphabet d))
       (states d)"

definition SINK_STATE :: state where
  "SINK_STATE = ''SINK_STATE''"

text \<open>\<open>if (q, a) not in self.transitions: self.transitions[(q, a)] = sink\<close>\<close>

definition add_missing :: "state \<Rightarrow> state \<Rightarrow> symbol \<Rightarrow> trans \<Rightarrow> trans" where
  "add_missing sink q a t =
     (if fmlookup t (q, a) = None then fmupd (q, a) sink t else t)"

text \<open>
  \<open>complete_with_sink\<close> returns the heap it leaves. \<open>h1\<close> is the heap after
  \<open>self.states.add(sink)\<close>, \<open>h2\<close> after the loop over the alphabet that gives the sink
  its transitions, \<open>h3\<close> after the loop over \<open>list(self.states)\<close>. Every read goes to
  the heap of the moment, so a field that holds the address of the state set sees the sink.
\<close>

definition complete_with_sink :: "heap \<Rightarrow> dfa_object \<Rightarrow> heap" where
  "complete_with_sink h self =
     (if is_complete (view h self) then h
      else
        let sink = SINK_STATE;
            h1 = (if sink \<notin> set (sets h (states_at self))
                  then h\<lparr>sets := (sets h)(states_at self :=
                           set_add sink (sets h (states_at self)))\<rparr>
                  else h);
            h2 = h1\<lparr>dicts := (dicts h1)(transitions_at self :=
                      fold (add_missing sink sink) (sets h1 (alphabet_at self))
                        (dicts h1 (transitions_at self)))\<rparr>;
            h3 = h2\<lparr>dicts := (dicts h2)(transitions_at self :=
                      fold (\<lambda>q t. fold (add_missing sink q) (sets h2 (alphabet_at self)) t)
                        (sets h2 (states_at self)) (dicts h2 (transitions_at self)))\<rparr>
        in h3)"

text \<open>
  \<open>accepts\<close>: the loop over the characters of the word, each character looked up as a
  one-character string; a missing key returns False at once.
\<close>

fun accepts_loop :: "dfa \<Rightarrow> state \<Rightarrow> string \<Rightarrow> bool" where
  "accepts_loop d current [] = (current \<in> set (accept_states d))"
| "accepts_loop d current (ch # word) =
     (if fmlookup (transitions d) (current, [ch]) = None then False
      else accepts_loop d (the (fmlookup (transitions d) (current, [ch]))) word)"

definition accepts :: "dfa \<Rightarrow> string \<Rightarrow> bool" where
  "accepts d word = accepts_loop d (start_state d) word"

section \<open>The equivalence engine\<close>

text \<open>
  \<open>reconstruct_word\<close> walks the parent links with a \<open>while\<close> loop that nothing in the
  function itself bounds (a cyclic parent dict would loop for ever), so the loop is a
  partial function and not returning is \<open>None\<close>.
\<close>

partial_function (option) reconstruct_loop ::
  "parents \<Rightarrow> pair \<Rightarrow> pair \<Rightarrow> symbol list \<Rightarrow> symbol list option" where
  "reconstruct_loop parent start current path =
     (if current \<noteq> start then
        (case fmlookup parent current of
           None \<Rightarrow> Some path
         | Some (prev, symbol) \<Rightarrow> reconstruct_loop parent start prev (path @ [symbol]))
      else Some path)"

declare reconstruct_loop.simps [code]

definition reconstruct_word :: "parents \<Rightarrow> pair \<Rightarrow> pair \<Rightarrow> string option" where
  "reconstruct_word parent start end_pair =
     map_option (\<lambda>path. concat (rev path)) (reconstruct_loop parent start end_pair [])"

type_synonym bfs_state = "pair list \<times> pair list \<times> parents"

text \<open>The \<open>for a in union_alphabet\<close> loop of one dequeued pair; the state is
  \<open>(queue, visited, parent)\<close>.\<close>

fun for_symbols :: "trans \<Rightarrow> trans \<Rightarrow> pair \<Rightarrow> symbol list \<Rightarrow> bfs_state \<Rightarrow> bfs_state" where
  "for_symbols t1 t2 (q1, q2) [] st = st"
| "for_symbols t1 t2 (q1, q2) (a # as) (queue, visited, parent) =
     (case (fmlookup t1 (q1, a), fmlookup t2 (q2, a)) of
        (Some next1, Some next2) \<Rightarrow>
          if (next1, next2) \<notin> set visited then
            for_symbols t1 t2 (q1, q2) as
              (queue @ [(next1, next2)], set_add (next1, next2) visited,
               fmupd (next1, next2) ((q1, q2), a) parent)
          else for_symbols t1 t2 (q1, q2) as (queue, visited, parent)
      | _ \<Rightarrow> for_symbols t1 t2 (q1, q2) as (queue, visited, parent))"

text \<open>
  The \<open>while queue\<close> loop. It reads the accepting sets and the dicts of the two
  automatons and changes nothing, so it takes the automatons as \<open>view\<close> gives them in
  the heap the prologue left. The second component of the result is the local variable
  \<open>visited\<close> at the moment the function returns: the pairs ever put on the queue.
\<close>

function bfs_loop ::
  "dfa \<Rightarrow> dfa \<Rightarrow> symbol list \<Rightarrow> pair \<Rightarrow> bfs_state
     \<Rightarrow> (bool \<times> string option) option \<times> pair list" where
  "bfs_loop dfa1 dfa2 union_alphabet start_pair ([], visited, parent) =
     (Some (True, None), visited)"
| "bfs_loop dfa1 dfa2 union_alphabet start_pair ((q1, q2) # queue, visited, parent) =
     (if (q1 \<in> set (accept_states dfa1)) \<noteq> (q2 \<in> set (accept_states dfa2)) then
        (map_option (\<lambda>word. (False, Some word)) (reconstruct_word parent start_pair (q1, q2)),
         visited)
      else
        bfs_loop dfa1 dfa2 union_alphabet start_pair
          (for_symbols (transitions dfa1) (transitions dfa2) (q1, q2) union_alphabet
             (queue, visited, parent)))"
  by pat_completeness auto

text \<open>
  \<open>are_equivalent\<close> changes both automatons before it searches: \<open>prepare\<close> is that
  prologue. The union of the alphabets is a new set object; \<open>new_set_address\<close> is an
  address that no set field of the two objects holds. Both objects get it as their
  alphabet, then each is completed in the heap the step before left. \<open>prepare\<close> returns
  the heap and the two objects as they stand afterwards. (When \<open>are_equivalent\<close> is
  given one object twice, the two records are equal, get the same alphabet, and the second
  completion finds the automaton complete.) \<open>bfs\<close> is the rest of the
  function, which reads the automatons in that heap and changes nothing; it returns the
  pairs put on the queue next to the result. \<open>are_equivalent\<close> is the result:
  \<open>Some (True, None)\<close>, \<open>Some (False, Some word)\<close>, or \<open>None\<close> if \<open>reconstruct_word\<close> did
  not return.
\<close>

definition new_set_address :: "dfa_object \<Rightarrow> dfa_object \<Rightarrow> ref" where
  "new_set_address dfa1 dfa2 =
     Suc (Max {states_at dfa1, alphabet_at dfa1, accept_states_at dfa1,
               states_at dfa2, alphabet_at dfa2, accept_states_at dfa2})"

definition prepare :: "heap \<Rightarrow> dfa_object \<Rightarrow> dfa_object \<Rightarrow> heap \<times> dfa_object \<times> dfa_object" where
  "prepare h dfa1 dfa2 =
     (let union_alphabet = set_union (sets h (alphabet_at dfa1)) (sets h (alphabet_at dfa2));
          u = new_set_address dfa1 dfa2;
          h0 = h\<lparr>sets := (sets h)(u := union_alphabet)\<rparr>;
          dfa1' = dfa1\<lparr>alphabet_at := u\<rparr>;
          dfa2' = dfa2\<lparr>alphabet_at := u\<rparr>;
          h1 = complete_with_sink h0 dfa1';
          h2 = complete_with_sink h1 dfa2'
      in (h2, dfa1', dfa2'))"

definition bfs ::
  "heap \<Rightarrow> dfa_object \<Rightarrow> dfa_object \<Rightarrow> (bool \<times> string option) option \<times> pair list" where
  "bfs h dfa1 dfa2 =
     (let union_alphabet = set_union (sets h (alphabet_at dfa1)) (sets h (alphabet_at dfa2));
          (h', dfa1', dfa2') = prepare h dfa1 dfa2;
          start_pair = (obj_start_state dfa1', obj_start_state dfa2')
      in bfs_loop (view h' dfa1') (view h' dfa2') union_alphabet start_pair
           ([start_pair], [start_pair], fmempty))"

definition are_equivalent ::
  "heap \<Rightarrow> dfa_object \<Rightarrow> dfa_object \<Rightarrow> (bool \<times> string option) option" where
  "are_equivalent h dfa1 dfa2 = fst (bfs h dfa1 dfa2)"

section \<open>Notions used to state the properties\<close>

text \<open>
  None of the definitions of this section is part of the program. \<open>follow\<close> is the state
  reached from a state by a word, \<open>valid\<close> is the invariant of the data model,
  \<open>sink_is_trap\<close> says that a state named \<open>SINK_STATE\<close>, if the automaton has one, already
  behaves as a sink, and \<open>symbols_are_chars\<close> says that every symbol is one character, which
  is what \<open>accepts\<close> reads a word as. \<open>post_call h dfa1 dfa2\<close> is the pair of automatons as
  \<open>are_equivalent\<close> leaves them, \<open>union_alphabet\<close> the alphabet it searches over. The
  remaining definitions describe the product automaton, the invariant of the search and
  what the completions keep of a dict.
\<close>

fun follow :: "trans \<Rightarrow> state \<Rightarrow> string \<Rightarrow> state option" where
  "follow t q [] = Some q"
| "follow t q (ch # word) =
     (case fmlookup t (q, [ch]) of None \<Rightarrow> None | Some r \<Rightarrow> follow t r word)"

definition valid :: "dfa \<Rightarrow> bool" where
  "valid d \<longleftrightarrow>
     start_state d \<in> set (states d) \<and>
     set (accept_states d) \<subseteq> set (states d) \<and>
     fmpred (\<lambda>(q, a) r. q \<in> set (states d) \<and> a \<in> set (alphabet d) \<and> r \<in> set (states d))
       (transitions d)"

definition sink_is_trap :: "dfa \<Rightarrow> bool" where
  "sink_is_trap d \<longleftrightarrow>
     SINK_STATE \<notin> set (accept_states d) \<and>
     fmpred (\<lambda>(q, a) r. q = SINK_STATE \<longrightarrow> r = SINK_STATE) (transitions d)"

definition symbols_of :: "string \<Rightarrow> symbol list" where
  "symbols_of word = map (\<lambda>ch. [ch]) word"

definition over_alphabet :: "symbol list \<Rightarrow> string \<Rightarrow> bool" where
  "over_alphabet ua word = list_all (\<lambda>ch. [ch] \<in> set ua) word"

definition symbols_are_chars :: "symbol list \<Rightarrow> bool" where
  "symbols_are_chars ua = list_all (\<lambda>a. length a = 1) ua"

fun trun :: "trans \<Rightarrow> state \<Rightarrow> symbol list \<Rightarrow> state option" where
  "trun t q [] = Some q"
| "trun t q (a # as) = (case fmlookup t (q, a) of None \<Rightarrow> None | Some r \<Rightarrow> trun t r as)"

fun pstep :: "trans \<Rightarrow> trans \<Rightarrow> symbol \<Rightarrow> pair \<Rightarrow> pair option" where
  "pstep t1 t2 a (q1, q2) =
     (case fmlookup t1 (q1, a) of
        None \<Rightarrow> None
      | Some n1 \<Rightarrow> (case fmlookup t2 (q2, a) of None \<Rightarrow> None | Some n2 \<Rightarrow> Some (n1, n2)))"

fun prun :: "trans \<Rightarrow> trans \<Rightarrow> pair \<Rightarrow> symbol list \<Rightarrow> pair option" where
  "prun t1 t2 x [] = Some x"
| "prun t1 t2 x (a # as) =
     (case pstep t1 t2 a x of None \<Rightarrow> None | Some y \<Rightarrow> prun t1 t2 y as)"

declare pstep.simps [simp del]

definition agree :: "dfa \<Rightarrow> dfa \<Rightarrow> pair \<Rightarrow> bool" where
  "agree d1 d2 x \<longleftrightarrow> (fst x \<in> set (accept_states d1)) = (snd x \<in> set (accept_states d2))"

definition links ::
  "trans \<Rightarrow> trans \<Rightarrow> symbol list \<Rightarrow> pair \<Rightarrow> (pair \<Rightarrow> symbol list) \<Rightarrow> pair list \<Rightarrow> parents \<Rightarrow> bool"
  where
  "links t1 t2 ua s0 w visited parent \<longleftrightarrow>
     distinct visited \<and> s0 \<in> set visited \<and> w s0 = [] \<and>
     sorted (map (\<lambda>z. length (w z)) visited) \<and>
     (\<forall>x \<in> set visited. x \<noteq> s0 \<longrightarrow>
        (\<exists>prev a. fmlookup parent x = Some (prev, a) \<and> prev \<in> set visited \<and> a \<in> set ua \<and>
                  pstep t1 t2 a prev = Some x \<and> w x = w prev @ [a]))"

definition closed ::
  "trans \<Rightarrow> trans \<Rightarrow> (pair \<Rightarrow> symbol list) \<Rightarrow> pair list \<Rightarrow> pair set \<Rightarrow> symbol set \<Rightarrow> bool" where
  "closed t1 t2 w visited X A \<longleftrightarrow>
     (\<forall>x \<in> X. \<forall>a \<in> A. \<forall>y. pstep t1 t2 a x = Some y \<longrightarrow>
        y \<in> set visited \<and> length (w y) \<le> Suc (length (w x)))"

definition for_inv ::
  "trans \<Rightarrow> trans \<Rightarrow> symbol list \<Rightarrow> pair \<Rightarrow> pair list \<Rightarrow> pair \<Rightarrow> symbol set \<Rightarrow>
   (pair \<Rightarrow> symbol list) \<Rightarrow> bfs_state \<Rightarrow> bool" where
  "for_inv t1 t2 ua s0 dn x A w st \<longleftrightarrow>
     (case st of (queue, visited, parent) \<Rightarrow>
        links t1 t2 ua s0 w visited parent \<and> visited = dn @ x # queue \<and>
        (\<forall>z \<in> set visited. length (w z) \<le> Suc (length (w x))) \<and>
        closed t1 t2 w visited (set dn) (set ua) \<and>
        closed t1 t2 w visited {x} A)"

definition bfs_inv ::
  "trans \<Rightarrow> trans \<Rightarrow> symbol list \<Rightarrow> pair \<Rightarrow> pair list \<Rightarrow>
   (pair \<Rightarrow> symbol list) \<Rightarrow> bfs_state \<Rightarrow> bool" where
  "bfs_inv t1 t2 ua s0 dn w st \<longleftrightarrow>
     (case st of (queue, visited, parent) \<Rightarrow>
        links t1 t2 ua s0 w visited parent \<and> visited = dn @ queue \<and>
        closed t1 t2 w visited (set dn) (set ua) \<and>
        (\<forall>h \<in> set (take 1 queue). \<forall>z \<in> set visited. length (w z) \<le> Suc (length (w h))))"

definition bfs_post ::
  "dfa \<Rightarrow> dfa \<Rightarrow> symbol list \<Rightarrow> pair \<Rightarrow> (bool \<times> string option) option \<Rightarrow> bool" where
  "bfs_post d1 d2 ua s0 res \<longleftrightarrow>
     (res = Some (True, None) \<and>
      (\<forall>syms y. set syms \<subseteq> set ua \<longrightarrow> prun (transitions d1) (transitions d2) s0 syms = Some y \<longrightarrow>
         agree d1 d2 y)) \<or>
     (\<exists>syms x. res = Some (False, Some (concat syms)) \<and> set syms \<subseteq> set ua \<and>
        prun (transitions d1) (transitions d2) s0 syms = Some x \<and> \<not> agree d1 d2 x \<and>
        (\<forall>syms' y. set syms' \<subseteq> set ua \<longrightarrow> length syms' < length syms \<longrightarrow>
           prun (transitions d1) (transitions d2) s0 syms' = Some y \<longrightarrow> agree d1 d2 y))"

definition run_closed :: "trans \<Rightarrow> symbol list \<Rightarrow> state set \<Rightarrow> bool" where
  "run_closed t ua C \<longleftrightarrow> (\<forall>q \<in> C. \<forall>a \<in> set ua. \<exists>r \<in> C. fmlookup t (q, a) = Some r)"

definition symbols_within :: "symbol list \<Rightarrow> trans \<Rightarrow> bool" where
  "symbols_within ua t \<longleftrightarrow> (\<forall>q a r. fmlookup t (q, a) = Some r \<longrightarrow> a \<in> set ua)"

definition dict_ok :: "state set \<Rightarrow> symbol list \<Rightarrow> trans \<Rightarrow> bool" where
  "dict_ok Q ua t \<longleftrightarrow>
     (\<forall>q a r. fmlookup t (q, a) = Some r \<longrightarrow>
        a \<in> set ua \<and>
        (r \<in> Q \<or> (r = SINK_STATE \<and> (\<forall>b \<in> set ua. fmlookup t (SINK_STATE, b) \<noteq> None))))"

definition vals_in :: "state set \<Rightarrow> trans \<Rightarrow> bool" where
  "vals_in S t \<longleftrightarrow> (\<forall>k v. fmlookup t k = Some v \<longrightarrow> v \<in> S)"

definition post_call :: "heap \<Rightarrow> dfa_object \<Rightarrow> dfa_object \<Rightarrow> dfa \<times> dfa" where
  "post_call h dfa1 dfa2 =
     (let (h', dfa1', dfa2') = prepare h dfa1 dfa2 in (view h' dfa1', view h' dfa2'))"

definition union_alphabet :: "heap \<Rightarrow> dfa_object \<Rightarrow> dfa_object \<Rightarrow> symbol list" where
  "union_alphabet h dfa1 dfa2 =
     set_union (sets h (alphabet_at dfa1)) (sets h (alphabet_at dfa2))"

text \<open>The heaps of the prologue, one by one.\<close>

definition heap0 :: "heap \<Rightarrow> dfa_object \<Rightarrow> dfa_object \<Rightarrow> heap" where
  "heap0 h o1 o2 = h\<lparr>sets := (sets h)(new_set_address o1 o2 := union_alphabet h o1 o2)\<rparr>"

definition object1 :: "dfa_object \<Rightarrow> dfa_object \<Rightarrow> dfa_object" where
  "object1 o1 o2 = o1\<lparr>alphabet_at := new_set_address o1 o2\<rparr>"

definition object2 :: "dfa_object \<Rightarrow> dfa_object \<Rightarrow> dfa_object" where
  "object2 o1 o2 = o2\<lparr>alphabet_at := new_set_address o1 o2\<rparr>"

definition heap1 :: "heap \<Rightarrow> dfa_object \<Rightarrow> dfa_object \<Rightarrow> heap" where
  "heap1 h o1 o2 = complete_with_sink (heap0 h o1 o2) (object1 o1 o2)"

definition heap2 :: "heap \<Rightarrow> dfa_object \<Rightarrow> dfa_object \<Rightarrow> heap" where
  "heap2 h o1 o2 = complete_with_sink (heap1 h o1 o2) (object2 o1 o2)"

section \<open>Example automatons\<close>

text \<open>
  \<open>ex_single\<close> is one accepting state and no transition; \<open>ex_ends1\<close> accepts the words
  ending in \<open>1\<close>, \<open>ex_ends1_bug\<close> sends \<open>q0\<close> to \<open>q1\<close> on \<open>0\<close> as well, and
  \<open>ex_ends1_wide\<close> is \<open>ex_ends1\<close> with a third symbol it has no transition for.
  \<open>ex_collide\<close> has a state of its own called \<open>SINK_STATE\<close>. The examples with
  \<open>token\<close> in their names have symbols longer than one character, which the input form
  admits (the alphabet is split at commas).
\<close>

definition ex_single :: dfa where
  "ex_single = \<lparr>name = ''AFD'', states = [''q0''], alphabet = [''0'', ''1''],
     start_state = ''q0'', accept_states = [''q0''], transitions = fmempty\<rparr>"

definition ex_ends1 :: dfa where
  "ex_ends1 = \<lparr>name = ''AFD 1'', states = [''q0'', ''q1''], alphabet = [''0'', ''1''],
     start_state = ''q0'', accept_states = [''q1''],
     transitions = fmap_of_list
       [((''q0'', ''0''), ''q0''), ((''q0'', ''1''), ''q1''),
        ((''q1'', ''0''), ''q0''), ((''q1'', ''1''), ''q1'')]\<rparr>"

definition ex_ends1_bug :: dfa where
  "ex_ends1_bug = \<lparr>name = ''AFD 2'', states = [''q0'', ''q1''], alphabet = [''0'', ''1''],
     start_state = ''q0'', accept_states = [''q1''],
     transitions = fmap_of_list
       [((''q0'', ''0''), ''q1''), ((''q0'', ''1''), ''q1''),
        ((''q1'', ''0''), ''q0''), ((''q1'', ''1''), ''q1'')]\<rparr>"

definition ex_ends1_wide :: dfa where
  "ex_ends1_wide = \<lparr>name = ''AFD 2'', states = [''q0'', ''q1''],
     alphabet = [''0'', ''1'', ''2''],
     start_state = ''q0'', accept_states = [''q1''],
     transitions = fmap_of_list
       [((''q0'', ''0''), ''q0''), ((''q0'', ''1''), ''q1''),
        ((''q1'', ''0''), ''q0''), ((''q1'', ''1''), ''q1'')]\<rparr>"

definition ex_collide :: dfa where
  "ex_collide = \<lparr>name = ''AFD'', states = [''q0'', ''SINK_STATE''], alphabet = [''a''],
     start_state = ''q0'', accept_states = [''SINK_STATE''], transitions = fmempty\<rparr>"

definition ex_token :: dfa where
  "ex_token = \<lparr>name = ''AFD 1'', states = [''q0'', ''q1''], alphabet = [''ab''],
     start_state = ''q0'', accept_states = [''q1''],
     transitions = fmap_of_list [((''q0'', ''ab''), ''q1'')]\<rparr>"

definition ex_token_loop :: dfa where
  "ex_token_loop = \<lparr>name = ''AFD 2'', states = [''q0''], alphabet = [''ab''],
     start_state = ''q0'', accept_states = [],
     transitions = fmap_of_list [((''q0'', ''ab''), ''q0'')]\<rparr>"

definition ex_long_token :: dfa where
  "ex_long_token = \<lparr>name = ''AFD 1'', states = [''q0'', ''q1'', ''q2'', ''q3''],
     alphabet = [''abc'', ''d''],
     start_state = ''q0'', accept_states = [''q1'', ''q3''],
     transitions = fmap_of_list
       [((''q0'', ''abc''), ''q1''), ((''q0'', ''d''), ''q2''), ((''q2'', ''d''), ''q3'')]\<rparr>"

definition ex_reject_all :: dfa where
  "ex_reject_all = \<lparr>name = ''AFD 2'', states = [''q0''], alphabet = [''abc'', ''d''],
     start_state = ''q0'', accept_states = [],
     transitions = fmap_of_list [((''q0'', ''abc''), ''q0''), ((''q0'', ''d''), ''q0'')]\<rparr>"

definition ex_plain :: dfa where
  "ex_plain = \<lparr>name = ''AFD 2'', states = [''q0''], alphabet = [''a''],
     start_state = ''q0'', accept_states = [], transitions = fmempty\<rparr>"

text \<open>
  \<open>two_separate A B\<close> is a heap that holds the automatons \<open>A\<close> and \<open>B\<close> with every set
  and dict an object of its own, as \<open>parse_dfa\<close> builds them; \<open>first_object\<close> and
  \<open>second_object\<close> are the two DFA objects in it.
\<close>

definition two_separate :: "dfa \<Rightarrow> dfa \<Rightarrow> heap" where
  "two_separate A B =
     \<lparr>sets = (\<lambda>r. [])(0 := states A, 1 := alphabet A, 2 := accept_states A,
                       3 := states B, 4 := alphabet B, 5 := accept_states B),
      dicts = (\<lambda>r. fmempty)(0 := transitions A, 1 := transitions B)\<rparr>"

definition first_object :: "dfa \<Rightarrow> dfa_object" where
  "first_object A =
     \<lparr>obj_name = name A, states_at = 0, alphabet_at = 1, obj_start_state = start_state A,
      accept_states_at = 2, transitions_at = 0\<rparr>"

definition second_object :: "dfa \<Rightarrow> dfa_object" where
  "second_object B =
     \<lparr>obj_name = name B, states_at = 3, alphabet_at = 4, obj_start_state = start_state B,
      accept_states_at = 5, transitions_at = 1\<rparr>"

text \<open>
  \<open>S = {'q0'}; DFA(S, {'a'}, 'q0', S, {})\<close>: one set object is the state set and the
  accepting set. The second object of \<open>ex_alias_heap\<close> is
  \<open>DFA({'q0'}, {'a'}, 'q0', {'q0'}, {})\<close>, all its fields objects of its own.
\<close>

definition ex_alias_heap :: heap where
  "ex_alias_heap =
     \<lparr>sets = (\<lambda>r. [])(0 := [''q0''], 1 := [''a''], 2 := [''q0''], 3 := [''a''],
                       4 := [''q0'']),
      dicts = (\<lambda>r. fmempty)\<rparr>"

definition ex_alias :: dfa_object where
  "ex_alias =
     \<lparr>obj_name = ''AFD 1'', states_at = 0, alphabet_at = 1, obj_start_state = ''q0'',
      accept_states_at = 0, transitions_at = 0\<rparr>"

definition ex_alias_other :: dfa_object where
  "ex_alias_other =
     \<lparr>obj_name = ''AFD 2'', states_at = 2, alphabet_at = 3, obj_start_state = ''q0'',
      accept_states_at = 4, transitions_at = 1\<rparr>"

text \<open>
  Two automatons built on one transitions dict
  \<open>T = {('q0','a'): 'q1', ('q1','a'): 'q0', ('q0','b'): 'q0'}\<close>, with state sets of their
  own, the alphabet \<open>{a, b, c}\<close>, no accepting state, and the start states \<open>q0\<close> and
  \<open>q1\<close>.
\<close>

definition ex_shared_dict_heap :: heap where
  "ex_shared_dict_heap =
     \<lparr>sets = (\<lambda>r. [])(0 := [''q0'', ''q1''], 1 := [''a'', ''b'', ''c''],
                       3 := [''q0'', ''q1''], 4 := [''a'', ''b'', ''c'']),
      dicts = (\<lambda>r. fmempty)(0 := fmap_of_list
        [((''q0'', ''a''), ''q1''), ((''q1'', ''a''), ''q0''), ((''q0'', ''b''), ''q0'')])\<rparr>"

definition ex_shared_dict1 :: dfa_object where
  "ex_shared_dict1 =
     \<lparr>obj_name = ''AFD 1'', states_at = 0, alphabet_at = 1, obj_start_state = ''q0'',
      accept_states_at = 2, transitions_at = 0\<rparr>"

definition ex_shared_dict2 :: dfa_object where
  "ex_shared_dict2 =
     \<lparr>obj_name = ''AFD 2'', states_at = 3, alphabet_at = 4, obj_start_state = ''q1'',
      accept_states_at = 5, transitions_at = 0\<rparr>"

text \<open>
  Two automatons built on one state set \<open>{'q0'}\<close>, with dicts of their own: the first has
  the loop on \<open>a\<close> and is complete, the second has no transition.
\<close>

definition ex_shared_states_heap :: heap where
  "ex_shared_states_heap =
     \<lparr>sets = (\<lambda>r. [])(0 := [''q0''], 1 := [''a''], 4 := [''a'']),
      dicts = (\<lambda>r. fmempty)(0 := fmap_of_list [((''q0'', ''a''), ''q0'')])\<rparr>"

definition ex_shared_states1 :: dfa_object where
  "ex_shared_states1 =
     \<lparr>obj_name = ''AFD 1'', states_at = 0, alphabet_at = 1, obj_start_state = ''q0'',
      accept_states_at = 2, transitions_at = 0\<rparr>"

definition ex_shared_states2 :: dfa_object where
  "ex_shared_states2 =
     \<lparr>obj_name = ''AFD 2'', states_at = 0, alphabet_at = 4, obj_start_state = ''q0'',
      accept_states_at = 5, transitions_at = 1\<rparr>"

section \<open>Termination of the search\<close>

text \<open>
  One pass of the \<open>for\<close> loop appends the same new pairs to the queue and to
  \<open>visited\<close>; they are successors, and none was visited before. So either a pair out of
  the finite set of possible successors leaves the unvisited ones, or the queue gets
  shorter.
\<close>

lemma for_symbols_shape:
  "for_symbols t1 t2 p as (queue, visited, parent) = (queue', visited', parent') \<Longrightarrow>
   \<exists>new. queue' = queue @ new \<and> visited' = visited @ new \<and> distinct new \<and>
         set new \<inter> set visited = {} \<and> set new \<subseteq> fmran' t1 \<times> fmran' t2"
proof (induction as arbitrary: queue visited parent)
  case Nil
  then show ?case by (cases p) simp
next
  case (Cons a as)
  obtain q1 q2 where p: "p = (q1, q2)" by (cases p)
  show ?case
  proof (cases "fmlookup t1 (q1, a)")
    case None
    with Cons p show ?thesis by simp
  next
    case s1: (Some n1)
    show ?thesis
    proof (cases "fmlookup t2 (q2, a)")
      case None
      with Cons p s1 show ?thesis by simp
    next
      case s2: (Some n2)
      show ?thesis
      proof (cases "(n1, n2) \<in> set visited")
        case True
        with Cons p s1 s2 show ?thesis by simp
      next
        case False
        with Cons.prems p s1 s2 have
          "for_symbols t1 t2 p as (queue @ [(n1, n2)], visited @ [(n1, n2)],
             fmupd (n1, n2) ((q1, q2), a) parent) = (queue', visited', parent')"
          by (simp add: set_add_def)
        from Cons.IH [OF this] obtain new where
          n: "queue' = (queue @ [(n1, n2)]) @ new" "visited' = (visited @ [(n1, n2)]) @ new"
             "distinct new" "set new \<inter> set (visited @ [(n1, n2)]) = {}"
             "set new \<subseteq> fmran' t1 \<times> fmran' t2"
          by blast
        have "n1 \<in> fmran' t1" "n2 \<in> fmran' t2"
          using s1 s2 by (auto intro: fmran'I)
        with n False show ?thesis
          by (intro exI [of _ "(n1, n2) # new"]) auto
      qed
    qed
  qed
qed

termination bfs_loop
proof (relation "inv_image (less_than <*lex*> less_than)
    (\<lambda>(d1, d2, alph, s0, (queue, visited, parent)).
       (card ((fmran' (transitions d1) \<times> fmran' (transitions d2)) - set visited),
        length queue))", goal_cases)
  case 1
  show ?case by (intro wf_inv_image wf_lex_prod wf_less_than)
next
  case (2 dfa1 dfa2 union_alphabet start_pair q1 q2 queue visited parent)
  obtain queue' visited' parent' where
    fs: "for_symbols (transitions dfa1) (transitions dfa2) (q1, q2) union_alphabet
           (queue, visited, parent) = (queue', visited', parent')"
    by (metis prod_cases3)
  from for_symbols_shape [OF fs] obtain new where
    n: "queue' = queue @ new" "visited' = visited @ new" "distinct new"
       "set new \<inter> set visited = {}"
       "set new \<subseteq> fmran' (transitions dfa1) \<times> fmran' (transitions dfa2)"
    by blast
  let ?R = "fmran' (transitions dfa1) \<times> fmran' (transitions dfa2)"
  have fin: "finite ?R" by (simp add: fmran'_alt_def)
  show ?case
  proof (cases new)
    case Nil
    with fs n show ?thesis by simp
  next
    case (Cons x xs)
    with n have x: "x \<in> ?R" "x \<notin> set visited" "x \<in> set visited'" by auto
    have "?R - set visited' \<subset> ?R - set visited"
      using x n by auto
    then have "card (?R - set visited') < card (?R - set visited)"
      using fin by (intro psubset_card_mono) auto
    with fs show ?thesis by simp
  qed
qed

section \<open>Sets, folds and runs\<close>

lemma set_set_add [simp]: "set (set_add x xs) = insert x (set xs)"
  by (auto simp: set_add_def)

lemma set_set_union [simp]: "set (set_union xs ys) = set xs \<union> set ys"
  unfolding set_union_def by (induction ys arbitrary: xs) auto

lemma fold_add_missing_lookup:
  "fmlookup (fold (add_missing sink q) as t) k =
     (case fmlookup t k of
        Some v \<Rightarrow> Some v
      | None \<Rightarrow> if fst k = q \<and> snd k \<in> set as then Some sink else None)"
  by (induction as arbitrary: t) (auto simp: add_missing_def split: option.splits)

lemma fold_states_lookup:
  "fmlookup (fold (\<lambda>q t. fold (add_missing sink q) as t) qs t) k =
     (case fmlookup t k of
        Some v \<Rightarrow> Some v
      | None \<Rightarrow> if fst k \<in> set qs \<and> snd k \<in> set as then Some sink else None)"
  by (induction qs arbitrary: t) (auto simp: fold_add_missing_lookup split: option.splits)

lemma is_complete_iff:
  "is_complete d \<longleftrightarrow>
     (\<forall>q \<in> set (states d). \<forall>a \<in> set (alphabet d). fmlookup (transitions d) (q, a) \<noteq> None)"
  by (simp add: is_complete_def list_all_iff)

lemma accepts_follow:
  "accepts_loop d q word =
     (case follow (transitions d) q word of None \<Rightarrow> False | Some r \<Rightarrow> r \<in> set (accept_states d))"
  by (induction word arbitrary: q) (auto split: option.splits)

lemma follow_None_iff:
  "follow t q word = None \<longleftrightarrow>
     (\<exists>i p. i < length word \<and> follow t q (take i word) = Some p \<and>
            fmlookup t (p, [word ! i]) = None)"
proof (induction word arbitrary: q)
  case Nil
  then show ?case by simp
next
  case (Cons ch word)
  show ?case
  proof (cases "fmlookup t (q, [ch])")
    case None
    then have "0 < length (ch # word) \<and> follow t q (take 0 (ch # word)) = Some q \<and>
               fmlookup t (q, [(ch # word) ! 0]) = None"
      by simp
    then have "\<exists>i p. i < length (ch # word) \<and> follow t q (take i (ch # word)) = Some p \<and>
                 fmlookup t (p, [(ch # word) ! i]) = None"
      by blast
    with None show ?thesis by simp
  next
    case (Some r)
    have "(\<exists>i p. i < length (ch # word) \<and> follow t q (take i (ch # word)) = Some p \<and>
                 fmlookup t (p, [(ch # word) ! i]) = None) \<longleftrightarrow>
          (\<exists>i p. i < length word \<and> follow t r (take i word) = Some p \<and>
                 fmlookup t (p, [word ! i]) = None)"
    proof
      assume "\<exists>i p. i < length (ch # word) \<and> follow t q (take i (ch # word)) = Some p \<and>
                 fmlookup t (p, [(ch # word) ! i]) = None"
      then obtain i p where ip: "i < length (ch # word)"
        "follow t q (take i (ch # word)) = Some p" "fmlookup t (p, [(ch # word) ! i]) = None"
        by blast
      show "\<exists>i p. i < length word \<and> follow t r (take i word) = Some p \<and>
                 fmlookup t (p, [word ! i]) = None"
      proof (cases i)
        case 0
        with ip Some show ?thesis by simp
      next
        case (Suc j)
        with ip Some have "j < length word \<and> follow t r (take j word) = Some p \<and>
                 fmlookup t (p, [word ! j]) = None"
          by simp
        then show ?thesis by blast
      qed
    next
      assume "\<exists>i p. i < length word \<and> follow t r (take i word) = Some p \<and>
                 fmlookup t (p, [word ! i]) = None"
      then obtain j p where "j < length word" "follow t r (take j word) = Some p"
        "fmlookup t (p, [word ! j]) = None"
        by blast
      with Some have "Suc j < length (ch # word) \<and>
          follow t q (take (Suc j) (ch # word)) = Some p \<and>
          fmlookup t (p, [(ch # word) ! Suc j]) = None"
        by simp
      then show "\<exists>i p. i < length (ch # word) \<and> follow t q (take i (ch # word)) = Some p \<and>
                 fmlookup t (p, [(ch # word) ! i]) = None"
        by blast
    qed
    with Some Cons.IH [of r] show ?thesis by simp
  qed
qed

section \<open>The invariant of the search\<close>

text \<open>
  \<open>w x\<close> is the word that the parent links spell for a visited pair \<open>x\<close>, \<open>dn\<close> the
  pairs already dequeued. The visited pairs are listed in the order of the length of
  their words, every dequeued pair has all its successors visited, and no visited pair is
  more than one symbol further than the head of the queue.
\<close>

lemma prun_snoc:
  "prun t1 t2 x (as @ [a]) =
     (case prun t1 t2 x as of None \<Rightarrow> None | Some y \<Rightarrow> pstep t1 t2 a y)"
  by (induction as arbitrary: x) (auto split: option.splits)

lemma for_symbols_Cons:
  "for_symbols t1 t2 x (a # as) (queue, visited, parent) =
     (case pstep t1 t2 a x of
        None \<Rightarrow> for_symbols t1 t2 x as (queue, visited, parent)
      | Some y \<Rightarrow>
          if y \<notin> set visited then
            for_symbols t1 t2 x as (queue @ [y], visited @ [y], fmupd y (x, a) parent)
          else for_symbols t1 t2 x as (queue, visited, parent))"
  by (cases x) (auto split: option.splits simp: set_add_def pstep.simps)

lemma for_symbols_Nil: "for_symbols t1 t2 x [] st = st"
  by (cases x) simp

lemma closed_insert:
  "closed t1 t2 w visited {x} (insert a A) \<longleftrightarrow>
     closed t1 t2 w visited {x} A \<and>
     (\<forall>y. pstep t1 t2 a x = Some y \<longrightarrow> y \<in> set visited \<and> length (w y) \<le> Suc (length (w x)))"
  by (auto simp: closed_def)

lemma closed_extend:
  assumes "closed t1 t2 w visited X A" "X \<subseteq> set visited" "y \<notin> set visited"
  shows "closed t1 t2 (w(y := v)) (visited @ [y]) X A"
  using assms unfolding closed_def by (auto simp: subset_iff)

lemma links_extend:
  assumes l: "links t1 t2 ua s0 w visited parent"
    and x: "x \<in> set visited" and y: "y \<notin> set visited"
    and a: "a \<in> set ua" and st: "pstep t1 t2 a x = Some y"
    and bound: "\<forall>z \<in> set visited. length (w z) \<le> Suc (length (w x))"
  shows "links t1 t2 ua s0 (w(y := w x @ [a])) (visited @ [y]) (fmupd y (x, a) parent)"
proof -
  let ?w = "w(y := w x @ [a])"
  have same: "\<And>z. z \<in> set visited \<Longrightarrow> ?w z = w z"
    using y by auto
  have s0: "s0 \<in> set visited" "w s0 = []" and d: "distinct visited"
    using l by (auto simp: links_def)
  have m: "map (\<lambda>z. length (?w z)) visited = map (\<lambda>z. length (w z)) visited"
    using same by (intro map_cong) auto
  have srt: "sorted (map (\<lambda>z. length (?w z)) (visited @ [y]))"
    using l bound same unfolding m map_append sorted_append
    by (auto simp: links_def)
  have old: "\<exists>prev b. fmlookup (fmupd y (x, a) parent) z = Some (prev, b) \<and>
               prev \<in> set (visited @ [y]) \<and> b \<in> set ua \<and>
               pstep t1 t2 b prev = Some z \<and> ?w z = ?w prev @ [b]"
    if z: "z \<in> set visited" "z \<noteq> s0" for z
  proof -
    from l z obtain prev b where
      p: "fmlookup parent z = Some (prev, b)" "prev \<in> set visited" "b \<in> set ua"
         "pstep t1 t2 b prev = Some z" "w z = w prev @ [b]"
      unfolding links_def by blast
    have "z \<noteq> y" "prev \<noteq> y" using z p y by auto
    with p show ?thesis by auto
  qed
  have new: "\<exists>prev b. fmlookup (fmupd y (x, a) parent) y = Some (prev, b) \<and>
               prev \<in> set (visited @ [y]) \<and> b \<in> set ua \<and>
               pstep t1 t2 b prev = Some y \<and> ?w y = ?w prev @ [b]"
    using x y a st by (intro exI [of _ x] exI [of _ a]) auto
  show ?thesis
    unfolding links_def
  proof (intro conjI ballI impI)
    show "distinct (visited @ [y])" using d y by simp
    show "s0 \<in> set (visited @ [y])" using s0 by simp
    show "?w s0 = []" using s0 y by auto
    show "sorted (map (\<lambda>z. length (?w z)) (visited @ [y]))" by (rule srt)
  next
    fix z assume "z \<in> set (visited @ [y])" "z \<noteq> s0"
    then have "z = y \<or> (z \<in> set visited \<and> z \<noteq> s0)" by auto
    then show "\<exists>prev b. fmlookup (fmupd y (x, a) parent) z = Some (prev, b) \<and>
               prev \<in> set (visited @ [y]) \<and> b \<in> set ua \<and>
               pstep t1 t2 b prev = Some z \<and> ?w z = ?w prev @ [b]"
      using old [of z] new by blast
  qed
qed

lemma for_symbols_inv:
  assumes "for_inv t1 t2 ua s0 dn x A w st" "set as \<subseteq> set ua"
  shows "\<exists>w'. for_inv t1 t2 ua s0 dn x (A \<union> set as) w' (for_symbols t1 t2 x as st)"
  using assms
proof (induction as arbitrary: A w st)
  case Nil
  then show ?case by (auto simp: for_symbols_Nil)
next
  case (Cons a as)
  obtain queue visited parent where st: "st = (queue, visited, parent)"
    by (cases st)
  from Cons.prems st have
    l: "links t1 t2 ua s0 w visited parent" and
    v: "visited = dn @ x # queue" and
    b: "\<forall>z \<in> set visited. length (w z) \<le> Suc (length (w x))" and
    cd: "closed t1 t2 w visited (set dn) (set ua)" and
    cx: "closed t1 t2 w visited {x} A"
    by (auto simp: for_inv_def)
  have a: "a \<in> set ua" and as: "set as \<subseteq> set ua"
    using Cons.prems by auto
  have un: "insert a A \<union> set as = A \<union> set (a # as)" by auto
  show ?case
  proof (cases "pstep t1 t2 a x")
    case None
    then have "closed t1 t2 w visited {x} (insert a A)"
      using cx by (simp add: closed_insert)
    with l v b cd have "for_inv t1 t2 ua s0 dn x (insert a A) w st"
      by (simp add: for_inv_def st)
    from Cons.IH [OF this as] show ?thesis
      using None by (simp add: st for_symbols_Cons un)
  next
    case (Some y)
    show ?thesis
    proof (cases "y \<in> set visited")
      case True
      then have "closed t1 t2 w visited {x} (insert a A)"
        using cx b Some by (simp add: closed_insert)
      with l v b cd have "for_inv t1 t2 ua s0 dn x (insert a A) w st"
        by (simp add: for_inv_def st)
      from Cons.IH [OF this as] show ?thesis
        using Some True by (simp add: st for_symbols_Cons un)
    next
      case False
      let ?w = "w(y := w x @ [a])"
      let ?st = "(queue @ [y], visited @ [y], fmupd y (x, a) parent)"
      have xv: "x \<in> set visited" using v by simp
      have xy: "x \<noteq> y" using xv False by auto
      have l': "links t1 t2 ua s0 ?w (visited @ [y]) (fmupd y (x, a) parent)"
        by (rule links_extend [OF l xv False a Some b])
      have b': "\<forall>z \<in> set (visited @ [y]). length (?w z) \<le> Suc (length (?w x))"
        using b xy by auto
      have cd': "closed t1 t2 ?w (visited @ [y]) (set dn) (set ua)"
        by (rule closed_extend [OF cd _ False]) (auto simp: v)
      have "closed t1 t2 ?w (visited @ [y]) {x} A"
        by (rule closed_extend [OF cx _ False]) (simp add: xv)
      then have cx': "closed t1 t2 ?w (visited @ [y]) {x} (insert a A)"
        using Some xy by (simp add: closed_insert)
      have "for_inv t1 t2 ua s0 dn x (insert a A) ?w ?st"
        using l' b' cd' cx' v by (simp add: for_inv_def)
      from Cons.IH [OF this as] show ?thesis
        using Some False by (simp add: st for_symbols_Cons un)
    qed
  qed
qed

lemma sorted_hd_le:
  assumes "sorted (map f (dn @ queue))" "y \<in> set queue"
  shows "f (hd queue) \<le> f y"
  using assms by (cases queue) (auto simp: sorted_append)

lemma bfs_inv_pop:
  assumes "bfs_inv t1 t2 ua s0 dn w (x # queue, visited, parent)"
  shows "for_inv t1 t2 ua s0 dn x {} w (queue, visited, parent)"
proof -
  have "closed t1 t2 w visited {x} {}" by (simp add: closed_def)
  with assms show ?thesis by (auto simp: bfs_inv_def for_inv_def)
qed

lemma for_inv_done:
  assumes "for_inv t1 t2 ua s0 dn x (set ua) w st"
  shows "bfs_inv t1 t2 ua s0 (dn @ [x]) w st"
proof -
  obtain queue visited parent where st: "st = (queue, visited, parent)"
    by (cases st)
  from assms st have
    l: "links t1 t2 ua s0 w visited parent" and
    v: "visited = dn @ x # queue" and
    b: "\<forall>z \<in> set visited. length (w z) \<le> Suc (length (w x))" and
    cd: "closed t1 t2 w visited (set dn) (set ua)" and
    cx: "closed t1 t2 w visited {x} (set ua)"
    by (auto simp: for_inv_def)
  have c: "closed t1 t2 w visited (set (dn @ [x])) (set ua)"
    using cd cx by (auto simp: closed_def)
  have srt: "sorted (map (\<lambda>z. length (w z)) (dn @ x # queue))"
    using l v by (simp add: links_def)
  have hb: "\<forall>h \<in> set (take 1 queue). \<forall>z \<in> set visited. length (w z) \<le> Suc (length (w h))"
  proof (cases queue)
    case Nil
    then show ?thesis by simp
  next
    case (Cons h rest)
    have "length (w x) \<le> length (w h)"
      using srt Cons by (simp add: sorted_append)
    then show ?thesis using b Cons by fastforce
  qed
  show ?thesis
    using l v c hb by (simp add: bfs_inv_def st)
qed

lemma bfs_inv_reach:
  assumes inv: "bfs_inv t1 t2 ua s0 dn w (queue, visited, parent)"
    and syms: "set syms \<subseteq> set ua" "prun t1 t2 s0 syms = Some y"
    and short: "queue = [] \<or> length syms < length (w (hd queue))"
  shows "y \<in> set dn \<and> length (w y) \<le> length syms"
  using syms short
proof (induction syms arbitrary: y rule: rev_induct)
  case Nil
  from inv have l: "links t1 t2 ua s0 w visited parent" and v: "visited = dn @ queue"
    by (auto simp: bfs_inv_def)
  have srt: "sorted (map (\<lambda>z. length (w z)) (dn @ queue))"
    using l v by (simp add: links_def)
  have y: "y = s0" using Nil by simp
  have s0: "s0 \<in> set visited" "w s0 = []" using l by (auto simp: links_def)
  have "s0 \<notin> set queue"
  proof
    assume "s0 \<in> set queue"
    from sorted_hd_le [OF srt this] have "length (w (hd queue)) \<le> length (w s0)" .
    with Nil.prems(3) s0 \<open>s0 \<in> set queue\<close> show False by auto
  qed
  with s0 v y show ?case by auto
next
  case (snoc a syms)
  from inv have l: "links t1 t2 ua s0 w visited parent" and v: "visited = dn @ queue"
    and c: "closed t1 t2 w visited (set dn) (set ua)"
    by (auto simp: bfs_inv_def)
  have srt: "sorted (map (\<lambda>z. length (w z)) (dn @ queue))"
    using l v by (simp add: links_def)
  from snoc.prems(2) obtain y' where
    y': "prun t1 t2 s0 syms = Some y'" "pstep t1 t2 a y' = Some y"
    by (auto simp: prun_snoc split: option.splits)
  have ih: "y' \<in> set dn" "length (w y') \<le> length syms"
    using snoc.IH [of y'] snoc.prems y' by auto
  have a: "a \<in> set ua" using snoc.prems by simp
  have "y \<in> set visited \<and> length (w y) \<le> Suc (length (w y'))"
    using c y'(2) ih(1) a unfolding closed_def by blast
  then have yv: "y \<in> set visited" and yl: "length (w y) \<le> Suc (length syms)"
    using ih(2) by auto
  have "y \<notin> set queue"
  proof
    assume q: "y \<in> set queue"
    from sorted_hd_le [OF srt this] have "length (w (hd queue)) \<le> length (w y)" .
    with snoc.prems(3) yl q show False by auto
  qed
  with yv yl v show ?case by auto
qed

lemma links_path:
  assumes l: "links t1 t2 ua s0 w visited parent" and x: "x \<in> set visited"
  shows "prun t1 t2 s0 (w x) = Some x \<and> set (w x) \<subseteq> set ua \<and>
         (\<forall>acc. reconstruct_loop parent s0 x acc = Some (acc @ rev (w x)))"
  using x
proof (induction "length (w x)" arbitrary: x rule: less_induct)
  case less
  show ?case
  proof (cases "x = s0")
    case True
    then show ?thesis
      using l by (simp add: links_def reconstruct_loop.simps)
  next
    case False
    with l less.prems obtain prev a where
      p: "fmlookup parent x = Some (prev, a)" "prev \<in> set visited" "a \<in> set ua"
         "pstep t1 t2 a prev = Some x" "w x = w prev @ [a]"
      unfolding links_def by blast
    have "length (w prev) < length (w x)" using p by simp
    from less.hyps [OF this p(2)] have
      ih: "prun t1 t2 s0 (w prev) = Some prev" "set (w prev) \<subseteq> set ua"
          "\<And>acc. reconstruct_loop parent s0 prev acc = Some (acc @ rev (w prev))"
      by auto
    have "reconstruct_loop parent s0 x acc = Some (acc @ rev (w x))" for acc
      using False p ih(3) [of "acc @ [a]"]
      by (subst reconstruct_loop.simps) simp
    then show ?thesis
      using p ih by (simp add: prun_snoc)
  qed
qed

lemma bfs_loop_post:
  assumes "bfs_inv (transitions d1) (transitions d2) ua s0 dn w st"
    and "\<forall>x \<in> set dn. agree d1 d2 x"
  shows "bfs_post d1 d2 ua s0 (fst (bfs_loop d1 d2 ua s0 st))"
  using assms
proof (induction d1 d2 ua s0 st arbitrary: dn w rule: bfs_loop.induct)
  case (1 dfa1 dfa2 ua s0 visited parent)
  have "agree dfa1 dfa2 y"
    if "set syms \<subseteq> set ua" "prun (transitions dfa1) (transitions dfa2) s0 syms = Some y"
    for syms y
    using bfs_inv_reach [OF "1.prems"(1) that] "1.prems"(2) by simp
  then show ?case by (simp add: bfs_post_def)
next
  case (2 dfa1 dfa2 ua s0 q1 q2 queue visited parent)
  let ?t1 = "transitions dfa1" and ?t2 = "transitions dfa2"
  let ?x = "(q1, q2)"
  from "2.prems"(1) have l: "links ?t1 ?t2 ua s0 w visited parent"
    and v: "visited = dn @ ?x # queue"
    by (auto simp: bfs_inv_def)
  show ?case
  proof (cases "agree dfa1 dfa2 ?x")
    case False
    have xv: "?x \<in> set visited" using v by simp
    from links_path [OF l xv] have
      p: "prun ?t1 ?t2 s0 (w ?x) = Some ?x" "set (w ?x) \<subseteq> set ua"
         "reconstruct_loop parent s0 ?x [] = Some (rev (w ?x))"
      by auto
    have res: "fst (bfs_loop dfa1 dfa2 ua s0 (?x # queue, visited, parent)) =
               Some (False, Some (concat (w ?x)))"
      using False p(3) by (simp add: agree_def reconstruct_word_def)
    have "agree dfa1 dfa2 y"
      if "set syms \<subseteq> set ua" "length syms < length (w ?x)"
         "prun ?t1 ?t2 s0 syms = Some y" for syms y
      using bfs_inv_reach [OF "2.prems"(1) that(1) that(3)] that(2) "2.prems"(2) by simp
    with res p False show ?thesis
      unfolding bfs_post_def by blast
  next
    case True
    let ?st = "for_symbols ?t1 ?t2 ?x ua (queue, visited, parent)"
    have c: "\<not> (q1 \<in> set (accept_states dfa1)) \<noteq> (q2 \<in> set (accept_states dfa2))"
      using True by (simp add: agree_def)
    from for_symbols_inv [OF bfs_inv_pop [OF "2.prems"(1)] subset_refl]
    obtain w' where "for_inv ?t1 ?t2 ua s0 dn ?x (set ua) w' ?st" by auto
    then have inv': "bfs_inv ?t1 ?t2 ua s0 (dn @ [?x]) w' ?st"
      by (rule for_inv_done)
    have ag: "\<forall>x \<in> set (dn @ [?x]). agree dfa1 dfa2 x"
      using True "2.prems"(2) by simp
    from "2.IH" [OF c inv' ag] show ?thesis
      using c by simp
  qed
qed

lemma bfs_loop_visited:
  assumes "bfs_inv (transitions d1) (transitions d2) ua s0 dn w st"
  shows "\<exists>w' parent'. links (transitions d1) (transitions d2) ua s0 w'
           (snd (bfs_loop d1 d2 ua s0 st)) parent'"
  using assms
proof (induction d1 d2 ua s0 st arbitrary: dn w rule: bfs_loop.induct)
  case (1 dfa1 dfa2 ua s0 visited parent)
  then show ?case by (auto simp: bfs_inv_def)
next
  case (2 dfa1 dfa2 ua s0 q1 q2 queue visited parent)
  let ?t1 = "transitions dfa1" and ?t2 = "transitions dfa2"
  let ?x = "(q1, q2)"
  show ?case
  proof (cases "(q1 \<in> set (accept_states dfa1)) \<noteq> (q2 \<in> set (accept_states dfa2))")
    case True
    then show ?thesis using "2.prems" by (auto simp: bfs_inv_def)
  next
    case False
    let ?st = "for_symbols ?t1 ?t2 ?x ua (queue, visited, parent)"
    from for_symbols_inv [OF bfs_inv_pop [OF "2.prems"(1)] subset_refl]
    obtain w' where "for_inv ?t1 ?t2 ua s0 dn ?x (set ua) w' ?st" by auto
    then have inv': "bfs_inv ?t1 ?t2 ua s0 (dn @ [?x]) w' ?st"
      by (rule for_inv_done)
    from "2.IH" [OF False inv'] show ?thesis
      using False by simp
  qed
qed

lemma bfs_inv_init:
  "bfs_inv t1 t2 ua s0 [] (\<lambda>_. []) ([s0], [s0], fmempty)"
  by (simp add: bfs_inv_def links_def closed_def)

section \<open>What a completion does to the heap\<close>

lemma view_fields [simp]:
  "name (view h self) = obj_name self"
  "states (view h self) = sets h (states_at self)"
  "alphabet (view h self) = sets h (alphabet_at self)"
  "start_state (view h self) = obj_start_state self"
  "accept_states (view h self) = sets h (accept_states_at self)"
  "transitions (view h self) = dicts h (transitions_at self)"
  by (simp_all add: view_def)

lemma complete_sets:
  "sets (complete_with_sink h self) =
     (if is_complete (view h self) \<or> SINK_STATE \<in> set (sets h (states_at self)) then sets h
      else (sets h)(states_at self := sets h (states_at self) @ [SINK_STATE]))"
  by (simp add: complete_with_sink_def Let_def set_add_def)

lemma complete_sets_other:
  "r \<noteq> states_at self \<Longrightarrow> sets (complete_with_sink h self) r = sets h r"
  by (simp add: complete_sets)

lemma complete_sets_mono:
  "set (sets h r) \<subseteq> set (sets (complete_with_sink h self) r)"
  "set (sets (complete_with_sink h self) r) \<subseteq> insert SINK_STATE (set (sets h r))"
  by (auto simp: complete_sets)

lemma complete_sink_in_states:
  "\<not> is_complete (view h self) \<Longrightarrow>
   SINK_STATE \<in> set (sets (complete_with_sink h self) (states_at self))"
  by (simp add: complete_sets)

lemma complete_dicts_other:
  "r \<noteq> transitions_at self \<Longrightarrow> dicts (complete_with_sink h self) r = dicts h r"
  by (simp add: complete_with_sink_def Let_def)

lemma complete_dicts_same:
  "is_complete (view h self) \<Longrightarrow> dicts (complete_with_sink h self) = dicts h"
  by (simp add: complete_with_sink_def)

lemma complete_dicts_lookup:
  assumes "\<not> is_complete (view h self)"
  shows "fmlookup (dicts (complete_with_sink h self) (transitions_at self)) (q, a) =
     (case fmlookup (dicts h (transitions_at self)) (q, a) of
        Some v \<Rightarrow> Some v
      | None \<Rightarrow>
          if q \<in> set (sets (complete_with_sink h self) (states_at self)) \<and>
             a \<in> set (sets (complete_with_sink h self) (alphabet_at self))
          then Some SINK_STATE else None)"
  using assms
  by (auto simp: complete_with_sink_def Let_def fold_states_lookup fold_add_missing_lookup
      set_add_def split: option.splits)

lemma complete_keeps_entries:
  "fmlookup (dicts h r) k = Some v \<Longrightarrow> fmlookup (dicts (complete_with_sink h self) r) k = Some v"
proof (cases "is_complete (view h self) \<or> r \<noteq> transitions_at self")
  case True
  then show "fmlookup (dicts h r) k = Some v \<Longrightarrow> ?thesis"
    by (auto simp: complete_dicts_same complete_dicts_other)
next
  case False
  then show "fmlookup (dicts h r) k = Some v \<Longrightarrow> ?thesis"
    using complete_dicts_lookup [of h self "fst k" "snd k"] by auto
qed

lemma complete_new_entries:
  assumes "fmlookup (dicts h r) (q, a) = None"
    and "fmlookup (dicts (complete_with_sink h self) r) (q, a) = Some v"
  shows "v = SINK_STATE \<and> r = transitions_at self \<and> \<not> is_complete (view h self) \<and>
         q \<in> set (sets (complete_with_sink h self) (states_at self)) \<and>
         a \<in> set (sets (complete_with_sink h self) (alphabet_at self))"
proof -
  have n: "\<not> is_complete (view h self)" "r = transitions_at self"
    using assms by (auto simp: complete_dicts_same complete_dicts_other intro: ccontr)
  with assms complete_dicts_lookup [OF n(1), of q a] show ?thesis
    by (auto split: if_splits)
qed

lemma is_complete_complete: "is_complete (view (complete_with_sink h self) self)"
proof (cases "is_complete (view h self)")
  case True
  then show ?thesis by (simp add: complete_with_sink_def)
next
  case False
  show ?thesis
    unfolding is_complete_iff
    by (auto simp: complete_dicts_lookup [OF False] split: option.splits)
qed

lemma complete_idem:
  "complete_with_sink (complete_with_sink h self) self = complete_with_sink h self"
  using is_complete_complete [of h self]
  by (simp add: complete_with_sink_def [of "complete_with_sink h self"])

section \<open>Runs of the product and acceptance\<close>

lemma valid_trans:
  "valid d \<Longrightarrow> fmlookup (transitions d) (q, a) = Some r \<Longrightarrow>
   q \<in> set (states d) \<and> a \<in> set (alphabet d) \<and> r \<in> set (states d)"
  unfolding valid_def by (auto dest: fmpredD)

lemma trap_trans:
  "sink_is_trap d \<Longrightarrow> fmlookup (transitions d) (SINK_STATE, a) = Some r \<Longrightarrow> r = SINK_STATE"
  unfolding sink_is_trap_def by (auto dest: fmpredD)

lemma valid_no_sink_trap:
  assumes "valid d" "SINK_STATE \<notin> set (states d)"
  shows "sink_is_trap d"
  unfolding sink_is_trap_def
proof (intro conjI fmpredI)
  show "SINK_STATE \<notin> set (accept_states d)"
    using assms by (auto simp: valid_def)
next
  fix k r assume "fmlookup (transitions d) k = Some r"
  then show "(case k of (q, a) \<Rightarrow> \<lambda>r. q = SINK_STATE \<longrightarrow> r = SINK_STATE) r"
    using assms valid_trans [of d "fst k" "snd k" r] by (cases k) auto
qed

lemma over_alphabet_iff: "over_alphabet ua word \<longleftrightarrow> set (symbols_of word) \<subseteq> set ua"
  by (auto simp: over_alphabet_def symbols_of_def list_all_iff)

lemma follow_trun: "follow t q word = trun t q (symbols_of word)"
  by (induction word arbitrary: q) (auto simp: symbols_of_def split: option.splits)

lemma accepts_trun:
  "accepts d word =
     (case trun (transitions d) (start_state d) (symbols_of word) of
        None \<Rightarrow> False | Some r \<Rightarrow> r \<in> set (accept_states d))"
  by (simp add: accepts_def accepts_follow follow_trun)

lemma prun_trun:
  "prun t1 t2 (p, q) syms =
     (case trun t1 p syms of
        None \<Rightarrow> None
      | Some p' \<Rightarrow> (case trun t2 q syms of None \<Rightarrow> None | Some q' \<Rightarrow> Some (p', q')))"
  by (induction syms arbitrary: p q) (auto simp: pstep.simps split: option.splits)

lemma symbols_of_concat:
  "list_all (\<lambda>a. length a = 1) syms \<Longrightarrow>
   symbols_of (concat syms) = syms \<and> length (concat syms) = length syms"
proof (induction syms)
  case Nil
  then show ?case by (simp add: symbols_of_def)
next
  case (Cons a syms)
  then obtain c where "a = [c]"
    by (cases a) auto
  with Cons show ?case by (simp add: symbols_of_def)
qed

lemma length_symbols_of [simp]: "length (symbols_of word) = length word"
  by (simp add: symbols_of_def)

lemma trun_total:
  assumes "run_closed t ua C"
  shows "q \<in> C \<Longrightarrow> set syms \<subseteq> set ua \<Longrightarrow> \<exists>r \<in> C. trun t q syms = Some r"
proof (induction syms arbitrary: q)
  case Nil
  then show ?case by simp
next
  case (Cons a syms)
  then obtain r where r: "r \<in> C" "fmlookup t (q, a) = Some r"
    using assms unfolding run_closed_def by (metis list.set_intros(1) subsetD)
  with Cons.IH [of r] Cons.prems show ?case by auto
qed

lemma trun_off_alphabet:
  assumes "run_closed t ua C" "symbols_within ua t"
  shows "q \<in> C \<Longrightarrow> \<not> set syms \<subseteq> set ua \<Longrightarrow> trun t q syms = None"
proof (induction syms arbitrary: q)
  case Nil
  then show ?case by simp
next
  case (Cons a syms)
  show ?case
  proof (cases "fmlookup t (q, a)")
    case None
    then show ?thesis by simp
  next
    case (Some r)
    then have a: "a \<in> set ua"
      using assms(2) unfolding symbols_within_def by blast
    with Some Cons.prems(1) assms(1) have "r \<in> C"
      unfolding run_closed_def by fastforce
    with Cons a Some show ?thesis by auto
  qed
qed

lemma product_run:
  assumes "run_closed t1 ua C1" "p0 \<in> C1" "run_closed t2 ua C2" "q0 \<in> C2"
    and "set syms \<subseteq> set ua"
  shows "\<exists>p q. p \<in> C1 \<and> q \<in> C2 \<and> trun t1 p0 syms = Some p \<and> trun t2 q0 syms = Some q \<and>
               prun t1 t2 (p0, q0) syms = Some (p, q)"
  using trun_total [OF assms(1,2,5)] trun_total [OF assms(3,4,5)]
  by (auto simp: prun_trun)

lemma prun_accepts:
  assumes "prun (transitions d1) (transitions d2) (start_state d1, start_state d2)
             (symbols_of word) = Some y"
  shows "agree d1 d2 y \<longleftrightarrow> accepts d1 word = accepts d2 word"
  using assms by (auto simp: prun_trun accepts_trun agree_def split: option.splits)

lemma product_agree:
  assumes "run_closed (transitions d1) ua C1" "start_state d1 \<in> C1"
    and "run_closed (transitions d2) ua C2" "start_state d2 \<in> C2"
    and "over_alphabet ua word"
  shows "\<exists>y. prun (transitions d1) (transitions d2) (start_state d1, start_state d2)
               (symbols_of word) = Some y \<and>
             (agree d1 d2 y \<longleftrightarrow> accepts d1 word = accepts d2 word)"
proof -
  have "set (symbols_of word) \<subseteq> set ua"
    using assms(5) by (simp add: over_alphabet_iff)
  from product_run [OF assms(1-4) this] obtain y where
    "prun (transitions d1) (transitions d2) (start_state d1, start_state d2)
       (symbols_of word) = Some y"
    by blast
  with prun_accepts [OF this] show ?thesis by blast
qed

lemma off_alphabet_rejected:
  assumes "run_closed (transitions d) ua C" "symbols_within ua (transitions d)"
    and "start_state d \<in> C" "\<not> over_alphabet ua word"
  shows "\<not> accepts d word"
  using trun_off_alphabet [OF assms(1,2,3), of "symbols_of word"] assms(4)
  by (simp add: accepts_trun over_alphabet_iff)

lemma symbols_are_chars_union:
  "symbols_are_chars (set_union xs ys) \<longleftrightarrow> symbols_are_chars xs \<and> symbols_are_chars ys"
  by (auto simp: symbols_are_chars_def list_all_iff)

lemma chars_concat:
  assumes "symbols_are_chars ua" "set syms \<subseteq> set ua"
  shows "symbols_of (concat syms) = syms" "length (concat syms) = length syms"
    "over_alphabet ua (concat syms)"
proof -
  have "list_all (\<lambda>a. length a = 1) syms"
    using assms by (auto simp: symbols_are_chars_def list_all_iff)
  from symbols_of_concat [OF this]
  show "symbols_of (concat syms) = syms" "length (concat syms) = length syms" by auto
  with assms(2) show "over_alphabet ua (concat syms)" by (simp add: over_alphabet_iff)
qed

section \<open>Completion under sharing\<close>

subsection \<open>One completion\<close>

lemma extension_preserves_loop:
  assumes keep: "\<And>k v. fmlookup (transitions d) k = Some v \<Longrightarrow>
                   fmlookup (transitions d') k = Some v"
    and new: "\<And>k v. fmlookup (transitions d) k = None \<Longrightarrow>
                fmlookup (transitions d') k = Some v \<Longrightarrow> v = SINK_STATE"
    and trap: "sink_is_trap d"
    and acc: "accept_states d' = accept_states d"
  shows "accepts_loop d' q word = accepts_loop d q word"
proof -
  have sink_step: "v = SINK_STATE" if "fmlookup (transitions d') (SINK_STATE, a) = Some v" for a v
  proof (cases "fmlookup (transitions d) (SINK_STATE, a)")
    case None
    from new [OF this that] show ?thesis .
  next
    case (Some v')
    with keep [OF Some] that trap_trans [OF trap Some] show ?thesis by simp
  qed
  have sink: "\<not> accepts_loop d' SINK_STATE w" for w
  proof (induction w)
    case Nil
    then show ?case using trap acc by (simp add: sink_is_trap_def)
  next
    case (Cons ch w)
    then show ?case using sink_step [of "[ch]"] by auto
  qed
  show ?thesis
  proof (induction word arbitrary: q)
    case Nil
    then show ?case by (simp add: acc)
  next
    case (Cons ch word)
    show ?case
    proof (cases "fmlookup (transitions d) (q, [ch])")
      case None
      show ?thesis
      proof (cases "fmlookup (transitions d') (q, [ch])")
        case n: None
        with None show ?thesis by simp
      next
        case (Some v)
        with new [OF None Some] None sink show ?thesis by simp
      qed
    next
      case (Some r)
      with keep [OF Some] Cons.IH [of r] show ?thesis by simp
    qed
  qed
qed

lemma dict_ok_complete:
  assumes ok: "dict_ok Q ua (dicts h r)"
    and al: "sets h (alphabet_at self) = ua" "alphabet_at self \<noteq> states_at self"
  shows "dict_ok Q ua (dicts (complete_with_sink h self) r)"
  unfolding dict_ok_def
proof (intro allI impI)
  fix q a v
  let ?h = "complete_with_sink h self"
  assume l: "fmlookup (dicts ?h r) (q, a) = Some v"
  have al': "sets ?h (alphabet_at self) = ua"
    using al by (simp add: complete_sets_other)
  show "a \<in> set ua \<and>
        (v \<in> Q \<or> (v = SINK_STATE \<and> (\<forall>b \<in> set ua. fmlookup (dicts ?h r) (SINK_STATE, b) \<noteq> None)))"
  proof (cases "fmlookup (dicts h r) (q, a)")
    case None
    from complete_new_entries [OF None l] have
      n: "v = SINK_STATE" "r = transitions_at self" "\<not> is_complete (view h self)"
         "a \<in> set (sets ?h (alphabet_at self))"
      by auto
    have "fmlookup (dicts ?h r) (SINK_STATE, b) \<noteq> None" if "b \<in> set ua" for b
      using that complete_sink_in_states [OF n(3)] al'
      by (auto simp: n(2) complete_dicts_lookup [OF n(3)] split: option.splits)
    with n al' show ?thesis by auto
  next
    case (Some v')
    from complete_keeps_entries [OF Some, of self] l have v: "v' = v" by simp
    from ok Some v have a: "a \<in> set ua" and
      d: "v \<in> Q \<or> (v = SINK_STATE \<and> (\<forall>b \<in> set ua. fmlookup (dicts h r) (SINK_STATE, b) \<noteq> None))"
      unfolding dict_ok_def by blast+
    have "fmlookup (dicts ?h r) (SINK_STATE, b) \<noteq> None"
      if "fmlookup (dicts h r) (SINK_STATE, b) \<noteq> None" for b
      using that complete_keeps_entries [of h r "(SINK_STATE, b)" _ self] by auto
    with a d show ?thesis by blast
  qed
qed

lemma vals_in_complete:
  assumes "vals_in (set (sets h (states_at self))) (dicts h (transitions_at self))"
  shows "vals_in (set (sets (complete_with_sink h self) (states_at self)))
           (dicts (complete_with_sink h self) (transitions_at self))"
  unfolding vals_in_def
proof (intro allI impI)
  fix k v
  let ?h = "complete_with_sink h self"
  assume l: "fmlookup (dicts ?h (transitions_at self)) k = Some v"
  show "v \<in> set (sets ?h (states_at self))"
  proof (cases "fmlookup (dicts h (transitions_at self)) k")
    case None
    from complete_new_entries [of h "transitions_at self" "fst k" "snd k" self v] None l
    have "v = SINK_STATE" "\<not> is_complete (view h self)" by auto
    with complete_sink_in_states show ?thesis by simp
  next
    case (Some v')
    from complete_keeps_entries [OF Some, of self] l have "v' = v" by simp
    with assms Some have "v \<in> set (sets h (states_at self))"
      unfolding vals_in_def by blast
    with complete_sets_mono(1) show ?thesis by blast
  qed
qed

lemma complete_run_closed:
  assumes "vals_in (set (sets h (states_at self))) (dicts h (transitions_at self))"
  shows "run_closed (dicts (complete_with_sink h self) (transitions_at self))
           (sets (complete_with_sink h self) (alphabet_at self))
           (set (sets (complete_with_sink h self) (states_at self)))"
  using vals_in_complete [OF assms] is_complete_complete [of h self]
  unfolding run_closed_def vals_in_def is_complete_iff
  by (metis not_Some_eq view_fields(2,3,6))

lemma run_closed_mono:
  assumes "run_closed t ua C" "\<And>k v. fmlookup t k = Some v \<Longrightarrow> fmlookup t' k = Some v"
  shows "run_closed t' ua C"
  using assms unfolding run_closed_def by metis

lemma dict_ok_closed:
  assumes "dict_ok Q ua t" "\<forall>q \<in> Q. \<forall>a \<in> set ua. fmlookup t (q, a) \<noteq> None"
  shows "run_closed t ua
           {q. (q \<in> Q \<or> q = SINK_STATE) \<and> (\<forall>a \<in> set ua. fmlookup t (q, a) \<noteq> None)}"
  unfolding run_closed_def
proof (intro ballI)
  fix q a
  assume q: "q \<in> {q. (q \<in> Q \<or> q = SINK_STATE) \<and> (\<forall>a \<in> set ua. fmlookup t (q, a) \<noteq> None)}"
    and a: "a \<in> set ua"
  then obtain r where r: "fmlookup t (q, a) = Some r" by auto
  with assms(1) have "r \<in> Q \<or> (r = SINK_STATE \<and> (\<forall>b \<in> set ua. fmlookup t (SINK_STATE, b) \<noteq> None))"
    unfolding dict_ok_def by blast
  with assms(2) have
    "r \<in> {q. (q \<in> Q \<or> q = SINK_STATE) \<and> (\<forall>a \<in> set ua. fmlookup t (q, a) \<noteq> None)}"
    by auto
  with r show "\<exists>r \<in> {q. (q \<in> Q \<or> q = SINK_STATE) \<and> (\<forall>a \<in> set ua. fmlookup t (q, a) \<noteq> None)}.
                 fmlookup t (q, a) = Some r"
    by blast
qed

lemma dict_ok_symbols: "dict_ok Q ua t \<Longrightarrow> symbols_within ua t"
  unfolding dict_ok_def symbols_within_def by blast

lemma valid_dict_ok:
  assumes "valid d" "set (alphabet d) \<subseteq> set ua"
  shows "dict_ok (set (states d)) ua (transitions d)"
  using assms valid_trans [OF assms(1)] unfolding dict_ok_def by blast

lemma valid_vals_in: "valid d \<Longrightarrow> vals_in (set (states d)) (transitions d)"
  unfolding vals_in_def using valid_trans by (metis prod.collapse)

subsection \<open>The prologue of \<open>are_equivalent\<close>\<close>

lemma new_set_address_fresh:
  "new_set_address o1 o2 \<notin>
     {states_at o1, alphabet_at o1, accept_states_at o1,
      states_at o2, alphabet_at o2, accept_states_at o2}"
proof -
  let ?R = "{states_at o1, alphabet_at o1, accept_states_at o1,
             states_at o2, alphabet_at o2, accept_states_at o2}"
  have "\<forall>r \<in> ?R. r \<le> Max ?R" by (intro ballI Max_ge) auto
  then have "\<forall>r \<in> ?R. r < new_set_address o1 o2"
    unfolding new_set_address_def by (simp add: less_Suc_eq_le)
  then show ?thesis by blast
qed

lemma prepare_unfold:
  "prepare h o1 o2 = (heap2 h o1 o2, object1 o1 o2, object2 o1 o2)"
  by (simp add: prepare_def Let_def heap2_def heap1_def heap0_def object1_def object2_def
      union_alphabet_def)

lemma post_call_unfold:
  "post_call h o1 o2 =
     (view (heap2 h o1 o2) (object1 o1 o2), view (heap2 h o1 o2) (object2 o1 o2))"
  by (simp add: post_call_def prepare_unfold)

lemma object_fields [simp]:
  "states_at (object1 o1 o2) = states_at o1" "states_at (object2 o1 o2) = states_at o2"
  "accept_states_at (object1 o1 o2) = accept_states_at o1"
  "accept_states_at (object2 o1 o2) = accept_states_at o2"
  "transitions_at (object1 o1 o2) = transitions_at o1"
  "transitions_at (object2 o1 o2) = transitions_at o2"
  "obj_start_state (object1 o1 o2) = obj_start_state o1"
  "obj_start_state (object2 o1 o2) = obj_start_state o2"
  "obj_name (object1 o1 o2) = obj_name o1" "obj_name (object2 o1 o2) = obj_name o2"
  "alphabet_at (object1 o1 o2) = new_set_address o1 o2"
  "alphabet_at (object2 o1 o2) = new_set_address o1 o2"
  by (simp_all add: object1_def object2_def)

lemma fresh_neq [simp]:
  "new_set_address o1 o2 \<noteq> states_at o1" "new_set_address o1 o2 \<noteq> states_at o2"
  "new_set_address o1 o2 \<noteq> accept_states_at o1" "new_set_address o1 o2 \<noteq> accept_states_at o2"
  "new_set_address o1 o2 \<noteq> alphabet_at o1" "new_set_address o1 o2 \<noteq> alphabet_at o2"
  "states_at o1 \<noteq> new_set_address o1 o2" "states_at o2 \<noteq> new_set_address o1 o2"
  "accept_states_at o1 \<noteq> new_set_address o1 o2" "accept_states_at o2 \<noteq> new_set_address o1 o2"
  using new_set_address_fresh [of o1 o2] by auto

lemma heap0_sets:
  "sets (heap0 h o1 o2) (new_set_address o1 o2) = union_alphabet h o1 o2"
  "r \<noteq> new_set_address o1 o2 \<Longrightarrow> sets (heap0 h o1 o2) r = sets h r"
  "dicts (heap0 h o1 o2) = dicts h"
  by (simp_all add: heap0_def)

lemma alphabet_kept:
  "sets (heap1 h o1 o2) (new_set_address o1 o2) = union_alphabet h o1 o2"
  "sets (heap2 h o1 o2) (new_set_address o1 o2) = union_alphabet h o1 o2"
  by (simp_all add: heap1_def heap2_def complete_sets_other heap0_sets)

lemma states_grow:
  "r \<noteq> new_set_address o1 o2 \<Longrightarrow> set (sets h r) \<subseteq> set (sets (heap1 h o1 o2) r)"
  "set (sets (heap1 h o1 o2) r) \<subseteq> set (sets (heap2 h o1 o2) r)"
  "r \<noteq> new_set_address o1 o2 \<Longrightarrow> set (sets h r) \<subseteq> set (sets (heap2 h o1 o2) r)"
proof -
  show 1: "r \<noteq> new_set_address o1 o2 \<Longrightarrow> set (sets h r) \<subseteq> set (sets (heap1 h o1 o2) r)"
    using complete_sets_mono(1) [of "heap0 h o1 o2" r "object1 o1 o2"]
    by (simp add: heap1_def heap0_sets)
  show 2: "set (sets (heap1 h o1 o2) r) \<subseteq> set (sets (heap2 h o1 o2) r)"
    using complete_sets_mono(1) [of "heap1 h o1 o2" r "object2 o1 o2"]
    by (simp add: heap2_def)
  show "r \<noteq> new_set_address o1 o2 \<Longrightarrow> set (sets h r) \<subseteq> set (sets (heap2 h o1 o2) r)"
    using 1 2 by blast
qed

lemma entries_kept:
  assumes "fmlookup (dicts h r) k = Some v"
  shows "fmlookup (dicts (heap1 h o1 o2) r) k = Some v"
    and "fmlookup (dicts (heap2 h o1 o2) r) k = Some v"
proof -
  show 1: "fmlookup (dicts (heap1 h o1 o2) r) k = Some v"
    unfolding heap1_def using assms
    by (intro complete_keeps_entries) (simp add: heap0_sets)
  show "fmlookup (dicts (heap2 h o1 o2) r) k = Some v"
    unfolding heap2_def by (intro complete_keeps_entries 1)
qed

lemma entries_kept12:
  "fmlookup (dicts (heap1 h o1 o2) r) k = Some v \<Longrightarrow>
   fmlookup (dicts (heap2 h o1 o2) r) k = Some v"
  unfolding heap2_def by (rule complete_keeps_entries)

lemma entries_new:
  assumes "fmlookup (dicts h r) k = None" "fmlookup (dicts (heap2 h o1 o2) r) k = Some v"
  shows "v = SINK_STATE"
proof (cases "fmlookup (dicts (heap1 h o1 o2) r) k")
  case None
  from complete_new_entries [of "heap1 h o1 o2" r "fst k" "snd k" "object2 o1 o2" v] None assms(2)
  show ?thesis by (simp add: heap2_def)
next
  case (Some v')
  from entries_kept12 [OF Some] assms(2) have "v' = v" by simp
  with complete_new_entries [of "heap0 h o1 o2" r "fst k" "snd k" "object1 o1 o2" v] Some assms(1)
  show ?thesis by (simp add: heap1_def heap0_sets)
qed

lemma dict_ok_prepare:
  assumes "dict_ok Q (union_alphabet h o1 o2) (dicts h r)"
  shows "dict_ok Q (union_alphabet h o1 o2) (dicts (heap2 h o1 o2) r)"
proof -
  have 1: "dict_ok Q (union_alphabet h o1 o2) (dicts (heap1 h o1 o2) r)"
    unfolding heap1_def using assms
    by (intro dict_ok_complete) (simp_all add: heap0_sets)
  show ?thesis
    unfolding heap2_def
    by (rule dict_ok_complete [OF 1]) (simp_all add: alphabet_kept)
qed

lemma total_on_states:
  assumes "q \<in> set (sets h (states_at o1))" "a \<in> set (union_alphabet h o1 o2)"
  shows "fmlookup (dicts (heap2 h o1 o2) (transitions_at o1)) (q, a) \<noteq> None"
proof -
  have "is_complete (view (heap1 h o1 o2) (object1 o1 o2))"
    unfolding heap1_def by (rule is_complete_complete)
  moreover have "q \<in> set (sets (heap1 h o1 o2) (states_at o1))"
    using assms(1) states_grow(1) [of "states_at o1" o1 o2 h] by auto
  ultimately have "fmlookup (dicts (heap1 h o1 o2) (transitions_at o1)) (q, a) \<noteq> None"
    using assms(2) by (simp add: is_complete_iff alphabet_kept)
  then show ?thesis using entries_kept12 by fastforce
qed

lemma total_on_states2:
  assumes "q \<in> set (sets h (states_at o2))" "a \<in> set (union_alphabet h o1 o2)"
  shows "fmlookup (dicts (heap2 h o1 o2) (transitions_at o2)) (q, a) \<noteq> None"
proof -
  have "is_complete (view (heap2 h o1 o2) (object2 o1 o2))"
    unfolding heap2_def by (rule is_complete_complete)
  moreover have "q \<in> set (sets (heap2 h o1 o2) (states_at o2))"
    using assms(1) states_grow(3) [of "states_at o2" o1 o2 h] by auto
  ultimately show ?thesis
    using assms(2) by (simp add: is_complete_iff alphabet_kept)
qed

lemma union_alphabet_set [simp]:
  "set (union_alphabet h o1 o2) = set (sets h (alphabet_at o1)) \<union> set (sets h (alphabet_at o2))"
  by (simp add: union_alphabet_def)

text \<open>
  Whatever the two automatons share, after the prologue each has a set of states that
  holds its start state and is closed under its transitions on the union alphabet, and no
  transition on another symbol.
\<close>

lemma prepare_closed:
  assumes "valid (view h o1)" "valid (view h o2)"
  shows "\<exists>C1 C2.
           run_closed (transitions (fst (post_call h o1 o2))) (union_alphabet h o1 o2) C1 \<and>
           start_state (fst (post_call h o1 o2)) \<in> C1 \<and>
           run_closed (transitions (snd (post_call h o1 o2))) (union_alphabet h o1 o2) C2 \<and>
           start_state (snd (post_call h o1 o2)) \<in> C2"
    and "symbols_within (union_alphabet h o1 o2) (transitions (fst (post_call h o1 o2)))"
    and "symbols_within (union_alphabet h o1 o2) (transitions (snd (post_call h o1 o2)))"
proof -
  let ?ua = "union_alphabet h o1 o2"
  let ?T1 = "dicts (heap2 h o1 o2) (transitions_at o1)"
  let ?T2 = "dicts (heap2 h o1 o2) (transitions_at o2)"
  let ?Q1 = "set (sets h (states_at o1))" and ?Q2 = "set (sets h (states_at o2))"
  have ok1: "dict_ok ?Q1 ?ua ?T1"
    using valid_dict_ok [OF assms(1), of ?ua] by (intro dict_ok_prepare) simp
  have ok2: "dict_ok ?Q2 ?ua ?T2"
    using valid_dict_ok [OF assms(2), of ?ua] by (intro dict_ok_prepare) simp
  have t1: "\<forall>q \<in> ?Q1. \<forall>a \<in> set ?ua. fmlookup ?T1 (q, a) \<noteq> None"
    using total_on_states by blast
  have t2: "\<forall>q \<in> ?Q2. \<forall>a \<in> set ?ua. fmlookup ?T2 (q, a) \<noteq> None"
    using total_on_states2 by blast
  have s1: "obj_start_state o1 \<in> ?Q1" and s2: "obj_start_state o2 \<in> ?Q2"
    using assms by (auto simp: valid_def)
  let ?C1 = "{q. (q \<in> ?Q1 \<or> q = SINK_STATE) \<and> (\<forall>a \<in> set ?ua. fmlookup ?T1 (q, a) \<noteq> None)}"
  let ?C2 = "{q. (q \<in> ?Q2 \<or> q = SINK_STATE) \<and> (\<forall>a \<in> set ?ua. fmlookup ?T2 (q, a) \<noteq> None)}"
  have "run_closed ?T1 ?ua ?C1" "run_closed ?T2 ?ua ?C2"
    by (rule dict_ok_closed [OF ok1 t1], rule dict_ok_closed [OF ok2 t2])
  moreover have "obj_start_state o1 \<in> ?C1" "obj_start_state o2 \<in> ?C2"
    using s1 s2 t1 t2 by auto
  ultimately show "\<exists>C1 C2.
           run_closed (transitions (fst (post_call h o1 o2))) ?ua C1 \<and>
           start_state (fst (post_call h o1 o2)) \<in> C1 \<and>
           run_closed (transitions (snd (post_call h o1 o2))) ?ua C2 \<and>
           start_state (snd (post_call h o1 o2)) \<in> C2"
    unfolding post_call_unfold by (intro exI [of _ ?C1] exI [of _ ?C2]) simp
  show "symbols_within ?ua (transitions (fst (post_call h o1 o2)))"
    "symbols_within ?ua (transitions (snd (post_call h o1 o2)))"
    using dict_ok_symbols [OF ok1] dict_ok_symbols [OF ok2]
    by (simp_all add: post_call_unfold)
qed

subsection \<open>The search on the two automatons after the prologue\<close>

lemma bfs_unfold:
  "bfs h o1 o2 =
     bfs_loop (fst (post_call h o1 o2)) (snd (post_call h o1 o2)) (union_alphabet h o1 o2)
       (obj_start_state o1, obj_start_state o2)
       ([(obj_start_state o1, obj_start_state o2)],
        [(obj_start_state o1, obj_start_state o2)], fmempty)"
  by (simp add: bfs_def prepare_unfold post_call_unfold union_alphabet_def Let_def)

lemma post_call_start [simp]:
  "start_state (fst (post_call h o1 o2)) = obj_start_state o1"
  "start_state (snd (post_call h o1 o2)) = obj_start_state o2"
  by (simp_all add: post_call_unfold)

lemma are_equivalent_post:
  "bfs_post (fst (post_call h o1 o2)) (snd (post_call h o1 o2)) (union_alphabet h o1 o2)
     (obj_start_state o1, obj_start_state o2) (are_equivalent h o1 o2)"
  unfolding are_equivalent_def bfs_unfold
  by (rule bfs_loop_post [OF bfs_inv_init]) simp

lemma are_equivalent_returns: "are_equivalent h o1 o2 \<noteq> None"
  using are_equivalent_post [of h o1 o2] by (auto simp: bfs_post_def)

lemma are_equivalent_cases:
  "are_equivalent h o1 o2 = Some (True, None) \<or>
   (\<exists>word. are_equivalent h o1 o2 = Some (False, Some word))"
  using are_equivalent_post [of h o1 o2] by (auto simp: bfs_post_def)

lemma symbols_are_chars_union_alphabet:
  "symbols_are_chars (union_alphabet h o1 o2) \<longleftrightarrow>
     symbols_are_chars (sets h (alphabet_at o1)) \<and> symbols_are_chars (sets h (alphabet_at o2))"
  by (simp add: union_alphabet_def symbols_are_chars_union)

lemma equivalent_sound:
  assumes v: "valid (view h o1)" "valid (view h o2)"
    and eq: "are_equivalent h o1 o2 = Some (True, None)"
    and o: "over_alphabet (union_alphabet h o1 o2) word"
  shows "accepts (fst (post_call h o1 o2)) word = accepts (snd (post_call h o1 o2)) word"
proof -
  let ?A = "fst (post_call h o1 o2)" and ?B = "snd (post_call h o1 o2)"
  let ?ua = "union_alphabet h o1 o2"
  let ?s0 = "(obj_start_state o1, obj_start_state o2)"
  from prepare_closed(1) [OF v] obtain C1 C2 where
    c: "run_closed (transitions ?A) ?ua C1" "start_state ?A \<in> C1"
       "run_closed (transitions ?B) ?ua C2" "start_state ?B \<in> C2"
    by blast
  from are_equivalent_post [of h o1 o2] eq have
    all: "\<And>syms y. set syms \<subseteq> set ?ua \<Longrightarrow>
            prun (transitions ?A) (transitions ?B) ?s0 syms = Some y \<Longrightarrow> agree ?A ?B y"
    unfolding bfs_post_def by auto
  from product_agree [OF c o] obtain y where
    y: "prun (transitions ?A) (transitions ?B) ?s0 (symbols_of word) = Some y"
       "agree ?A ?B y \<longleftrightarrow> accepts ?A word = accepts ?B word"
    by auto
  from all [OF _ y(1)] o y(2) show ?thesis
    by (simp add: over_alphabet_iff)
qed

lemma witness_distinguishes:
  assumes ch: "symbols_are_chars (sets h (alphabet_at o1))"
    "symbols_are_chars (sets h (alphabet_at o2))"
    and res: "are_equivalent h o1 o2 = Some (False, Some word)"
  shows "accepts (fst (post_call h o1 o2)) word \<noteq> accepts (snd (post_call h o1 o2)) word"
    and "over_alphabet (union_alphabet h o1 o2) word"
proof -
  let ?A = "fst (post_call h o1 o2)" and ?B = "snd (post_call h o1 o2)"
  let ?ua = "union_alphabet h o1 o2"
  let ?s0 = "(obj_start_state o1, obj_start_state o2)"
  have chu: "symbols_are_chars ?ua"
    using ch by (simp add: symbols_are_chars_union_alphabet)
  from are_equivalent_post [of h o1 o2] res obtain syms x where
    s: "word = concat syms" "set syms \<subseteq> set ?ua"
       "prun (transitions ?A) (transitions ?B) ?s0 syms = Some x" "\<not> agree ?A ?B x"
    unfolding bfs_post_def by auto
  note cc = chars_concat [OF chu s(2)]
  from prun_accepts [of ?A ?B word x] s cc(1)
  show "accepts ?A word \<noteq> accepts ?B word" by simp
  from cc(3) s(1) show "over_alphabet ?ua word" by simp
qed

lemma witness_shortest:
  assumes v: "valid (view h o1)" "valid (view h o2)"
    and ch: "symbols_are_chars (sets h (alphabet_at o1))"
      "symbols_are_chars (sets h (alphabet_at o2))"
    and res: "are_equivalent h o1 o2 = Some (False, Some word)"
    and len: "length word' < length word"
  shows "accepts (fst (post_call h o1 o2)) word' = accepts (snd (post_call h o1 o2)) word'"
proof -
  let ?A = "fst (post_call h o1 o2)" and ?B = "snd (post_call h o1 o2)"
  let ?ua = "union_alphabet h o1 o2"
  let ?s0 = "(obj_start_state o1, obj_start_state o2)"
  have chu: "symbols_are_chars ?ua"
    using ch by (simp add: symbols_are_chars_union_alphabet)
  from prepare_closed(1) [OF v] obtain C1 C2 where
    c: "run_closed (transitions ?A) ?ua C1" "start_state ?A \<in> C1"
       "run_closed (transitions ?B) ?ua C2" "start_state ?B \<in> C2"
    by blast
  note sw = prepare_closed(2,3) [OF v]
  from are_equivalent_post [of h o1 o2] res obtain syms where
    s: "word = concat syms" "set syms \<subseteq> set ?ua" and
    m: "\<And>syms' y. set syms' \<subseteq> set ?ua \<Longrightarrow> length syms' < length syms \<Longrightarrow>
          prun (transitions ?A) (transitions ?B) ?s0 syms' = Some y \<Longrightarrow> agree ?A ?B y"
    unfolding bfs_post_def by auto
  note cc = chars_concat [OF chu s(2)]
  show ?thesis
  proof (cases "over_alphabet ?ua word'")
    case True
    from product_agree [OF c True] obtain y where
      y: "prun (transitions ?A) (transitions ?B) ?s0 (symbols_of word') = Some y"
         "agree ?A ?B y \<longleftrightarrow> accepts ?A word' = accepts ?B word'"
      by auto
    have "length (symbols_of word') < length syms"
      using len s(1) cc(2) by simp
    from m [OF _ this y(1)] True y(2) show ?thesis
      by (simp add: over_alphabet_iff)
  next
    case False
    from off_alphabet_rejected [OF c(1) sw(1) c(2) False]
      off_alphabet_rejected [OF c(3) sw(2) c(4) False]
    show ?thesis by simp
  qed
qed

subsection \<open>The pairs put on the queue\<close>

lemma bfs_links:
  "\<exists>w parent. links (transitions (fst (post_call h o1 o2)))
       (transitions (snd (post_call h o1 o2))) (union_alphabet h o1 o2)
       (obj_start_state o1, obj_start_state o2) w (snd (bfs h o1 o2)) parent"
  unfolding bfs_unfold by (rule bfs_loop_visited [OF bfs_inv_init])

lemma bfs_distinct: "distinct (snd (bfs h o1 o2))"
  using bfs_links [of h o1 o2] by (auto simp: links_def)

lemma bfs_visited_in:
  assumes "run_closed (transitions (fst (post_call h o1 o2))) (union_alphabet h o1 o2) C1"
    "obj_start_state o1 \<in> C1"
    "run_closed (transitions (snd (post_call h o1 o2))) (union_alphabet h o1 o2) C2"
    "obj_start_state o2 \<in> C2"
  shows "set (snd (bfs h o1 o2)) \<subseteq> C1 \<times> C2"
proof
  fix x assume x: "x \<in> set (snd (bfs h o1 o2))"
  from bfs_links [of h o1 o2] obtain w parent where
    l: "links (transitions (fst (post_call h o1 o2)))
       (transitions (snd (post_call h o1 o2))) (union_alphabet h o1 o2)
       (obj_start_state o1, obj_start_state o2) w (snd (bfs h o1 o2)) parent"
    by blast
  from links_path [OF l x] have
    p: "prun (transitions (fst (post_call h o1 o2))) (transitions (snd (post_call h o1 o2)))
          (obj_start_state o1, obj_start_state o2) (w x) = Some x"
       "set (w x) \<subseteq> set (union_alphabet h o1 o2)"
    by auto
  from product_run [OF assms p(2)] p(1) show "x \<in> C1 \<times> C2" by auto
qed

lemma lookups_defined:
  assumes v: "valid (view h o1)" "valid (view h o2)"
    and x: "x \<in> set (snd (bfs h o1 o2))" and a: "a \<in> set (union_alphabet h o1 o2)"
  shows "fmlookup (transitions (fst (post_call h o1 o2))) (fst x, a) \<noteq> None \<and>
         fmlookup (transitions (snd (post_call h o1 o2))) (snd x, a) \<noteq> None"
proof -
  from prepare_closed(1) [OF v] obtain C1 C2 where
    c: "run_closed (transitions (fst (post_call h o1 o2))) (union_alphabet h o1 o2) C1"
       "start_state (fst (post_call h o1 o2)) \<in> C1"
       "run_closed (transitions (snd (post_call h o1 o2))) (union_alphabet h o1 o2) C2"
       "start_state (snd (post_call h o1 o2)) \<in> C2"
    by blast
  from bfs_visited_in [OF c(1) _ c(3)] c(2,4) x have "fst x \<in> C1" "snd x \<in> C2"
    by auto
  with c(1,3) a show ?thesis
    unfolding run_closed_def by fastforce
qed

subsection \<open>Where the two automatons may not share\<close>

lemma prepare_states_closed:
  assumes v: "valid (view h o1)" "valid (view h o2)"
    and c: "transitions_at o1 \<noteq> transitions_at o2 \<or> states_at o1 = states_at o2"
  shows "\<exists>C1 C2.
           run_closed (transitions (fst (post_call h o1 o2))) (union_alphabet h o1 o2) C1 \<and>
           obj_start_state o1 \<in> C1 \<and> C1 \<subseteq> set (states (fst (post_call h o1 o2))) \<and>
           run_closed (transitions (snd (post_call h o1 o2))) (union_alphabet h o1 o2) C2 \<and>
           obj_start_state o2 \<in> C2 \<and> C2 \<subseteq> set (states (snd (post_call h o1 o2)))"
proof -
  let ?ua = "union_alphabet h o1 o2"
  let ?h0 = "heap0 h o1 o2" and ?h1 = "heap1 h o1 o2" and ?h2 = "heap2 h o1 o2"
  let ?S1 = "states_at o1" and ?S2 = "states_at o2"
  let ?T1 = "transitions_at o1" and ?T2 = "transitions_at o2"
  have v1: "vals_in (set (sets ?h0 ?S1)) (dicts ?h0 ?T1)"
    using valid_vals_in [OF v(1)] by (simp add: heap0_sets)
  have v2: "vals_in (set (sets h ?S2)) (dicts h ?T2)"
    using valid_vals_in [OF v(2)] by simp
  have r1: "run_closed (dicts ?h1 ?T1) ?ua (set (sets ?h1 ?S1))"
    using complete_run_closed [of ?h0 "object1 o1 o2"] v1
    by (simp add: heap1_def [symmetric] alphabet_kept)
  have r1': "run_closed (dicts ?h2 ?T1) ?ua (set (sets ?h1 ?S1))"
    by (rule run_closed_mono [OF r1]) (rule entries_kept12)
  have w1: "vals_in (set (sets ?h1 ?S1)) (dicts ?h1 ?T1)"
    using vals_in_complete [of ?h0 "object1 o1 o2"] v1
    by (simp add: heap1_def [symmetric])
  have w2: "vals_in (set (sets ?h1 ?S2)) (dicts ?h1 ?T2)"
  proof (cases "?T1 = ?T2")
    case True
    with c w1 show ?thesis by simp
  next
    case False
    then have "dicts ?h1 ?T2 = dicts h ?T2"
      by (simp add: heap1_def complete_dicts_other heap0_sets)
    with v2 states_grow(1) [of ?S2 o1 o2 h] show ?thesis
      unfolding vals_in_def by (metis fresh_neq(8) subsetD)
  qed
  have r2: "run_closed (dicts ?h2 ?T2) ?ua (set (sets ?h2 ?S2))"
    using complete_run_closed [of ?h1 "object2 o1 o2"] w2
    by (simp add: heap2_def [symmetric] alphabet_kept)
  have s1: "obj_start_state o1 \<in> set (sets ?h1 ?S1)"
    using v(1) states_grow(1) [of ?S1 o1 o2 h] by (auto simp: valid_def)
  have s2: "obj_start_state o2 \<in> set (sets ?h2 ?S2)"
    using v(2) states_grow(3) [of ?S2 o1 o2 h] by (auto simp: valid_def)
  have sub: "set (sets ?h1 ?S1) \<subseteq> set (sets ?h2 ?S1)"
    by (rule states_grow(2))
  show ?thesis
    unfolding post_call_unfold
    using r1' r2 s1 s2 sub
    by (intro exI [of _ "set (sets ?h1 ?S1)"] exI [of _ "set (sets ?h2 ?S2)"]) simp
qed

lemma bfs_visited_count:
  assumes v: "valid (view h o1)" "valid (view h o2)"
    and c: "transitions_at o1 \<noteq> transitions_at o2 \<or> states_at o1 = states_at o2"
  shows "length (snd (bfs h o1 o2)) \<le>
         card (set (states (fst (post_call h o1 o2)))) *
         card (set (states (snd (post_call h o1 o2))))"
proof -
  from prepare_states_closed [OF v c] obtain C1 C2 where
    c: "run_closed (transitions (fst (post_call h o1 o2))) (union_alphabet h o1 o2) C1"
       "obj_start_state o1 \<in> C1" "C1 \<subseteq> set (states (fst (post_call h o1 o2)))"
       "run_closed (transitions (snd (post_call h o1 o2))) (union_alphabet h o1 o2) C2"
       "obj_start_state o2 \<in> C2" "C2 \<subseteq> set (states (snd (post_call h o1 o2)))"
    by blast
  from bfs_visited_in [OF c(1,2,4,5)] c(3,6) have
    sub: "set (snd (bfs h o1 o2)) \<subseteq>
          set (states (fst (post_call h o1 o2))) \<times> set (states (snd (post_call h o1 o2)))"
    by blast
  have "length (snd (bfs h o1 o2)) = card (set (snd (bfs h o1 o2)))"
    using bfs_distinct [of h o1 o2] by (simp add: distinct_card)
  also have "\<dots> \<le> card (set (states (fst (post_call h o1 o2))) \<times>
                      set (states (snd (post_call h o1 o2))))"
    by (intro card_mono sub) simp
  finally show ?thesis by (simp add: card_cartesian_product)
qed

lemma post_call_complete2: "is_complete (snd (post_call h o1 o2))"
  by (simp add: post_call_unfold heap2_def is_complete_complete)

lemma post_call_complete1:
  assumes "states_at o1 \<noteq> states_at o2 \<or> transitions_at o1 = transitions_at o2"
  shows "is_complete (fst (post_call h o1 o2))"
proof -
  let ?h1 = "heap1 h o1 o2" and ?h2 = "heap2 h o1 o2"
  have c1: "is_complete (view ?h1 (object1 o1 o2))"
    unfolding heap1_def by (rule is_complete_complete)
  show ?thesis
  proof (cases "states_at o1 = states_at o2")
    case True
    with assms have "is_complete (view ?h1 (object2 o1 o2)) = is_complete (view ?h1 (object1 o1 o2))"
      by (simp add: is_complete_def)
    with c1 have "?h2 = ?h1"
      by (simp add: heap2_def complete_with_sink_def)
    with c1 show ?thesis by (simp add: post_call_unfold)
  next
    case False
    then have "sets ?h2 (states_at o1) = sets ?h1 (states_at o1)"
      by (simp add: heap2_def complete_sets_other)
    with c1 show ?thesis
      unfolding post_call_unfold is_complete_iff
      using entries_kept12 [of h o1 o2 "transitions_at o1"]
      by (simp add: alphabet_kept) (metis not_Some_eq)
  qed
qed

subsection \<open>What the prologue leaves alone\<close>

lemma prepare_sets_frame:
  assumes "r \<noteq> states_at o1" "r \<noteq> states_at o2" "r \<noteq> new_set_address o1 o2"
  shows "sets (heap2 h o1 o2) r = sets h r"
  using assms by (simp add: heap2_def heap1_def complete_sets_other heap0_sets)

lemma prepare_accept1:
  assumes "accept_states_at o1 \<noteq> states_at o1" "accept_states_at o1 \<noteq> states_at o2"
  shows "accept_states (fst (post_call h o1 o2)) = accept_states (view h o1)"
  using assms by (simp add: post_call_unfold prepare_sets_frame)

lemma prepare_accept2:
  assumes "accept_states_at o2 \<noteq> states_at o1" "accept_states_at o2 \<noteq> states_at o2"
  shows "accept_states (snd (post_call h o1 o2)) = accept_states (view h o2)"
  using assms by (simp add: post_call_unfold prepare_sets_frame)

lemma prepare_accepts1:
  assumes "sink_is_trap (view h o1)"
    and "accept_states_at o1 \<noteq> states_at o1" "accept_states_at o1 \<noteq> states_at o2"
  shows "accepts (fst (post_call h o1 o2)) word = accepts (view h o1) word"
  unfolding accepts_def post_call_start view_fields
proof (rule extension_preserves_loop [OF _ _ assms(1) prepare_accept1 [OF assms(2,3)]])
  fix k v
  assume "fmlookup (transitions (view h o1)) k = Some v"
  then show "fmlookup (transitions (fst (post_call h o1 o2))) k = Some v"
    by (simp add: post_call_unfold entries_kept(2))
next
  fix k v
  assume "fmlookup (transitions (view h o1)) k = None"
    "fmlookup (transitions (fst (post_call h o1 o2))) k = Some v"
  then show "v = SINK_STATE"
    using entries_new [of h "transitions_at o1" k o1 o2 v] by (simp add: post_call_unfold)
qed

lemma prepare_accepts2:
  assumes "sink_is_trap (view h o2)"
    and "accept_states_at o2 \<noteq> states_at o1" "accept_states_at o2 \<noteq> states_at o2"
  shows "accepts (snd (post_call h o1 o2)) word = accepts (view h o2) word"
  unfolding accepts_def post_call_start view_fields
proof (rule extension_preserves_loop [OF _ _ assms(1) prepare_accept2 [OF assms(2,3)]])
  fix k v
  assume "fmlookup (transitions (view h o2)) k = Some v"
  then show "fmlookup (transitions (snd (post_call h o1 o2))) k = Some v"
    by (simp add: post_call_unfold entries_kept(2))
next
  fix k v
  assume "fmlookup (transitions (view h o2)) k = None"
    "fmlookup (transitions (snd (post_call h o1 o2))) k = Some v"
  then show "v = SINK_STATE"
    using entries_new [of h "transitions_at o2" k o1 o2 v] by (simp add: post_call_unfold)
qed

subsection \<open>One completion and the accepted language\<close>

lemma complete_preserves_accepts:
  assumes "sink_is_trap (view h self)" "accept_states_at self \<noteq> states_at self"
  shows "accepts (view (complete_with_sink h self) self) word = accepts (view h self) word"
  unfolding accepts_def view_fields
proof (rule extension_preserves_loop [OF _ _ assms(1)])
  fix k v
  assume "fmlookup (transitions (view h self)) k = Some v"
  then show "fmlookup (transitions (view (complete_with_sink h self) self)) k = Some v"
    by (simp add: complete_keeps_entries)
next
  fix k v
  assume "fmlookup (transitions (view h self)) k = None"
    "fmlookup (transitions (view (complete_with_sink h self) self)) k = Some v"
  then show "v = SINK_STATE"
    using complete_new_entries [of h "transitions_at self" "fst k" "snd k" self v] by simp
next
  show "accept_states (view (complete_with_sink h self) self) = accept_states (view h self)"
    using assms(2) by (simp add: complete_sets_other)
qed

section \<open>Facts about the examples\<close>

lemma view_two_separate [simp]:
  "view (two_separate A B) (first_object A) = A"
  "view (two_separate A B) (second_object B) = B"
  by (simp_all add: view_def two_separate_def first_object_def second_object_def)

lemma separate_fields [simp]:
  "states_at (first_object A) = 0" "accept_states_at (first_object A) = 2"
  "transitions_at (first_object A) = 0" "alphabet_at (first_object A) = 1"
  "states_at (second_object B) = 3" "accept_states_at (second_object B) = 5"
  "transitions_at (second_object B) = 1" "alphabet_at (second_object B) = 4"
  by (simp_all add: first_object_def second_object_def)

lemma ex_valid:
  "valid ex_single" "valid ex_ends1" "valid ex_ends1_bug" "valid ex_ends1_wide"
  "valid ex_collide" "valid ex_token" "valid ex_token_loop" "valid ex_long_token"
  "valid ex_reject_all" "valid ex_plain"
  by code_simp+

lemma ex_valid_shared:
  "valid (view ex_alias_heap ex_alias)" "valid (view ex_alias_heap ex_alias_other)"
  "valid (view ex_shared_dict_heap ex_shared_dict1)"
  "valid (view ex_shared_dict_heap ex_shared_dict2)"
  "valid (view ex_shared_states_heap ex_shared_states1)"
  "valid (view ex_shared_states_heap ex_shared_states2)"
  by code_simp+

lemma ex_chars:
  "symbols_are_chars (alphabet ex_single)" "symbols_are_chars (alphabet ex_ends1)"
  "symbols_are_chars (alphabet ex_ends1_bug)" "symbols_are_chars (alphabet ex_ends1_wide)"
  by code_simp+

lemma ex_trap:
  "sink_is_trap ex_single" "sink_is_trap ex_ends1" "sink_is_trap ex_ends1_bug"
  "sink_is_trap ex_ends1_wide" "sink_is_trap ex_token" "sink_is_trap ex_token_loop"
  by code_simp+

lemma token_all_rejected:
  "\<not> accepts ex_token word" "\<not> accepts ex_token_loop word"
  by (cases word; simp add: accepts_def ex_token_def ex_token_loop_def)+

text \<open>The four concrete scenarios of the specification.\<close>

lemma spec_scenarios:
  "are_equivalent (two_separate ex_single ex_single) (first_object ex_single)
     (second_object ex_single) = Some (True, None)"
  "are_equivalent (two_separate ex_ends1 ex_ends1_bug) (first_object ex_ends1)
     (second_object ex_ends1_bug) = Some (False, Some ''0'')"
  "are_equivalent (two_separate ex_ends1 ex_ends1_wide) (first_object ex_ends1)
     (second_object ex_ends1_wide) = Some (True, None)"
  "\<not> accepts ex_single ''0''"
  by code_simp+

text \<open>
  A state of the user's called \<open>SINK_STATE\<close>, and one set object as state set and accepting
  set: in both cases the verdict is NOT-EQUIVALENT although the two automatons, as they
  were passed in, reject the witness \<open>a\<close> (and accept the same words).
\<close>

lemma verdict_sink_collision:
  "valid ex_collide \<and> valid ex_plain \<and>
   are_equivalent (two_separate ex_collide ex_plain) (first_object ex_collide)
     (second_object ex_plain) = Some (False, Some ''a'') \<and>
   \<not> accepts ex_collide ''a'' \<and> \<not> accepts ex_plain ''a''"
  by code_simp

lemma verdict_shared_set:
  "are_equivalent ex_alias_heap ex_alias ex_alias_other = Some (False, Some ''a'') \<and>
   \<not> accepts (view ex_alias_heap ex_alias) ''a'' \<and>
   \<not> accepts (view ex_alias_heap ex_alias_other) ''a''"
  by code_simp

text \<open>
  With one state set and two dicts, the first automaton is complete and stays as it is,
  the completion of the second puts the sink into the state set of both, and the first
  has no transition from it: after the prologue it is not complete. The search never
  reaches the sink in it.
\<close>

lemma first_incomplete_on_shared_states:
  "\<not> is_complete (fst (post_call ex_shared_states_heap ex_shared_states1 ex_shared_states2)) \<and>
   is_complete (snd (post_call ex_shared_states_heap ex_shared_states1 ex_shared_states2))"
  by code_simp

section \<open>The properties of the specification\<close>

text \<open>
  In what follows \<open>h\<close> is the heap before the call, \<open>view h dfa\<close> the automaton an
  object stands for in it, \<open>fst (post_call h dfa1 dfa2)\<close> and \<open>snd (post_call h dfa1 dfa2)\<close>
  the two automatons after \<open>are_equivalent\<close>, and \<open>snd (bfs h dfa1 dfa2)\<close> the list of the
  pairs the search has put on the queue when it returns. A condition of the form
  \<open>accept_states_at dfa \<noteq> states_at dfa\<close> says that two fields hold different objects.
\<close>

text \<open>
  Claim C1, as the code has it. For valid automatons: when \<open>are_equivalent\<close> returns
  \<open>(True, None)\<close>, the two automatons, as they stand after the call, accept the same
  words over the union alphabet, whatever the symbols are and whatever the two objects
  share. When the symbols are single characters the converse holds as well. The answers
  after the call are the answers before the call when, in both automatons, \<open>SINK_STATE\<close>
  is not accepting and is left by no transition to another state, and neither accepting
  set is the same object as a state set. The only other result is \<open>False\<close> with a witness.
\<close>

theorem are_equivalent_verdict:
  assumes "valid (view h o1)" "valid (view h o2)"
  shows
    "(are_equivalent h o1 o2 = Some (True, None) \<longrightarrow>
        (\<forall>word. over_alphabet (union_alphabet h o1 o2) word \<longrightarrow>
           accepts (fst (post_call h o1 o2)) word = accepts (snd (post_call h o1 o2)) word)) \<and>
     (symbols_are_chars (alphabet (view h o1)) \<and> symbols_are_chars (alphabet (view h o2)) \<longrightarrow>
        (are_equivalent h o1 o2 = Some (True, None)) =
          (\<forall>word. over_alphabet (union_alphabet h o1 o2) word \<longrightarrow>
             accepts (fst (post_call h o1 o2)) word = accepts (snd (post_call h o1 o2)) word)) \<and>
     (sink_is_trap (view h o1) \<and> sink_is_trap (view h o2) \<and>
      accept_states_at o1 \<noteq> states_at o1 \<and> accept_states_at o1 \<noteq> states_at o2 \<and>
      accept_states_at o2 \<noteq> states_at o1 \<and> accept_states_at o2 \<noteq> states_at o2 \<longrightarrow>
        (\<forall>word. accepts (fst (post_call h o1 o2)) word = accepts (view h o1) word \<and>
                accepts (snd (post_call h o1 o2)) word = accepts (view h o2) word)) \<and>
     (are_equivalent h o1 o2 = Some (True, None) \<or>
      (\<exists>word. are_equivalent h o1 o2 = Some (False, Some word)))"
proof (intro conjI impI)
  let ?A = "fst (post_call h o1 o2)" and ?B = "snd (post_call h o1 o2)"
  let ?ua = "union_alphabet h o1 o2"
  show sound: "\<forall>word. over_alphabet ?ua word \<longrightarrow> accepts ?A word = accepts ?B word"
    if "are_equivalent h o1 o2 = Some (True, None)"
    using equivalent_sound [OF assms that] by blast
  show "are_equivalent h o1 o2 = Some (True, None) \<or>
      (\<exists>word. are_equivalent h o1 o2 = Some (False, Some word))"
    by (rule are_equivalent_cases)
  show "(are_equivalent h o1 o2 = Some (True, None)) =
          (\<forall>word. over_alphabet ?ua word \<longrightarrow> accepts ?A word = accepts ?B word)"
    if ch: "symbols_are_chars (alphabet (view h o1)) \<and> symbols_are_chars (alphabet (view h o2))"
  proof
    assume "are_equivalent h o1 o2 = Some (True, None)"
    then show "\<forall>word. over_alphabet ?ua word \<longrightarrow> accepts ?A word = accepts ?B word"
      by (rule sound)
  next
    assume all: "\<forall>word. over_alphabet ?ua word \<longrightarrow> accepts ?A word = accepts ?B word"
    show "are_equivalent h o1 o2 = Some (True, None)"
    proof (rule ccontr)
      assume "are_equivalent h o1 o2 \<noteq> Some (True, None)"
      with are_equivalent_cases [of h o1 o2] obtain word where
        "are_equivalent h o1 o2 = Some (False, Some word)"
        by blast
      from witness_distinguishes [OF _ _ this] ch all show False by simp
    qed
  qed
  show "\<forall>word. accepts ?A word = accepts (view h o1) word \<and>
               accepts ?B word = accepts (view h o2) word"
    if "sink_is_trap (view h o1) \<and> sink_is_trap (view h o2) \<and>
      accept_states_at o1 \<noteq> states_at o1 \<and> accept_states_at o1 \<noteq> states_at o2 \<and>
      accept_states_at o2 \<noteq> states_at o1 \<and> accept_states_at o2 \<noteq> states_at o2"
    using that by (simp add: prepare_accepts1 prepare_accepts2)
qed

text \<open>
  The third scenario of the specification: the alphabets \<open>{0, 1}\<close> and \<open>{0, 1, 2}\<close>,
  the same language; the verdict is EQUIVALENT and the automatons agree on \<open>0121\<close>.
\<close>

theorem are_equivalent_verdict_witness:
  "are_equivalent (two_separate ex_ends1 ex_ends1_wide) (first_object ex_ends1)
     (second_object ex_ends1_wide) = Some (True, None) \<and>
   accepts ex_ends1 ''0121'' = accepts ex_ends1_wide ''0121''"
proof -
  let ?h = "two_separate ex_ends1 ex_ends1_wide"
  let ?o1 = "first_object ex_ends1" and ?o2 = "second_object ex_ends1_wide"
  have v: "valid (view ?h ?o1)" "valid (view ?h ?o2)"
    using ex_valid by simp_all
  have t: "sink_is_trap (view ?h ?o1)" "sink_is_trap (view ?h ?o2)"
    using ex_trap by simp_all
  have r: "are_equivalent ?h ?o1 ?o2 = Some (True, None)"
    by (rule spec_scenarios)
  have o: "over_alphabet (union_alphabet ?h ?o1 ?o2) ''0121''"
    by code_simp
  have ap: "accept_states_at ?o1 \<noteq> states_at ?o1 \<and> accept_states_at ?o1 \<noteq> states_at ?o2 \<and>
            accept_states_at ?o2 \<noteq> states_at ?o1 \<and> accept_states_at ?o2 \<noteq> states_at ?o2"
    by simp
  note th = are_equivalent_verdict [OF v]
  from th r o have
    "accepts (fst (post_call ?h ?o1 ?o2)) ''0121'' = accepts (snd (post_call ?h ?o1 ?o2)) ''0121''"
    by blast
  moreover from th t ap have
    "accepts (fst (post_call ?h ?o1 ?o2)) ''0121'' = accepts (view ?h ?o1) ''0121''"
    "accepts (snd (post_call ?h ?o1 ?o2)) ''0121'' = accepts (view ?h ?o2) ''0121''"
    by blast+
  ultimately show ?thesis using r by simp
qed

text \<open>
  Claim C1 as stated fails where a symbol has two characters: the verdict is
  NOT-EQUIVALENT, but \<open>accepts\<close> reads a word character by character, so both automatons
  reject every word, before and after the call.
\<close>

theorem verdict_fails_on_tokens:
  "valid (view (two_separate ex_token ex_token_loop) (first_object ex_token)) \<and>
   valid (view (two_separate ex_token ex_token_loop) (second_object ex_token_loop)) \<and>
   are_equivalent (two_separate ex_token ex_token_loop) (first_object ex_token)
     (second_object ex_token_loop) = Some (False, Some ''ab'') \<and>
   (\<forall>word. accepts (view (two_separate ex_token ex_token_loop) (first_object ex_token)) word =
           accepts (view (two_separate ex_token ex_token_loop) (second_object ex_token_loop))
             word) \<and>
   (\<forall>word.
      accepts (fst (post_call (two_separate ex_token ex_token_loop) (first_object ex_token)
                 (second_object ex_token_loop))) word =
      accepts (snd (post_call (two_separate ex_token ex_token_loop) (first_object ex_token)
                 (second_object ex_token_loop))) word)"
proof -
  let ?h = "two_separate ex_token ex_token_loop"
  let ?o1 = "first_object ex_token" and ?o2 = "second_object ex_token_loop"
  have r: "are_equivalent ?h ?o1 ?o2 = Some (False, Some ''ab'')"
    by code_simp
  have "accepts (fst (post_call ?h ?o1 ?o2)) word = accepts ex_token word"
    "accepts (snd (post_call ?h ?o1 ?o2)) word = accepts ex_token_loop word" for word
    using prepare_accepts1 [of ?h ?o1 ?o2 word] prepare_accepts2 [of ?h ?o2 ?o1 word] ex_trap
    by simp_all
  with r ex_valid token_all_rejected show ?thesis by simp
qed

text \<open>
  Claim C2, as the code has it. For valid automatons whose symbols are single characters,
  a witness returned with the verdict \<open>False\<close> is accepted by exactly one of the two
  automatons as they stand after the call, whatever the two objects share.
\<close>

theorem witness_is_valid:
  assumes "valid (view h o1)" "valid (view h o2)"
    and "symbols_are_chars (alphabet (view h o1))" "symbols_are_chars (alphabet (view h o2))"
    and "are_equivalent h o1 o2 = Some (False, Some word)"
  shows "accepts (fst (post_call h o1 o2)) word \<noteq> accepts (snd (post_call h o1 o2)) word"
  using witness_distinguishes(1) [OF _ _ assms(5)] assms(3,4) by simp

text \<open>
  The second scenario of the specification: the witness is \<open>0\<close>.
\<close>

theorem witness_is_valid_witness:
  "are_equivalent (two_separate ex_ends1 ex_ends1_bug) (first_object ex_ends1)
     (second_object ex_ends1_bug) = Some (False, Some ''0'') \<and>
   accepts (fst (post_call (two_separate ex_ends1 ex_ends1_bug) (first_object ex_ends1)
              (second_object ex_ends1_bug))) ''0'' \<noteq>
   accepts (snd (post_call (two_separate ex_ends1 ex_ends1_bug) (first_object ex_ends1)
              (second_object ex_ends1_bug))) ''0''"
proof -
  let ?h = "two_separate ex_ends1 ex_ends1_bug"
  let ?o1 = "first_object ex_ends1" and ?o2 = "second_object ex_ends1_bug"
  have v: "valid (view ?h ?o1)" "valid (view ?h ?o2)"
    using ex_valid by simp_all
  have c: "symbols_are_chars (alphabet (view ?h ?o1))" "symbols_are_chars (alphabet (view ?h ?o2))"
    using ex_chars by simp_all
  have r: "are_equivalent ?h ?o1 ?o2 = Some (False, Some ''0'')"
    by (rule spec_scenarios)
  from witness_is_valid [OF v c r] r show ?thesis by simp
qed

text \<open>
  Claim C2 as stated fails where a symbol has two characters: the witness \<open>ab\<close> is the
  symbol written out, and both automatons reject it.
\<close>

theorem witness_invalid_on_tokens:
  "valid (view (two_separate ex_token ex_token_loop) (first_object ex_token)) \<and>
   valid (view (two_separate ex_token ex_token_loop) (second_object ex_token_loop)) \<and>
   are_equivalent (two_separate ex_token ex_token_loop) (first_object ex_token)
     (second_object ex_token_loop) = Some (False, Some ''ab'') \<and>
   accepts (fst (post_call (two_separate ex_token ex_token_loop) (first_object ex_token)
              (second_object ex_token_loop))) ''ab'' =
   accepts (snd (post_call (two_separate ex_token ex_token_loop) (first_object ex_token)
              (second_object ex_token_loop))) ''ab''"
  by code_simp

text \<open>
  Claim C3, as the code has it. For valid automatons whose symbols are single characters,
  no word strictly shorter than the returned witness is accepted by one automaton and
  rejected by the other (as they stand after the call), whether over the union alphabet or
  not, and whatever the two objects share.
\<close>

theorem witness_is_shortest:
  assumes "valid (view h o1)" "valid (view h o2)"
    and "symbols_are_chars (alphabet (view h o1))" "symbols_are_chars (alphabet (view h o2))"
    and "are_equivalent h o1 o2 = Some (False, Some word)"
  shows "\<forall>word'. length word' < length word \<longrightarrow>
           accepts (fst (post_call h o1 o2)) word' = accepts (snd (post_call h o1 o2)) word'"
  using witness_shortest [OF assms(1,2) _ _ assms(5)] assms(3,4) by simp

text \<open>
  In the second scenario the witness is \<open>0\<close>, and the automatons agree on the empty
  word.
\<close>

theorem witness_is_shortest_witness:
  "are_equivalent (two_separate ex_ends1 ex_ends1_bug) (first_object ex_ends1)
     (second_object ex_ends1_bug) = Some (False, Some ''0'') \<and>
   accepts (fst (post_call (two_separate ex_ends1 ex_ends1_bug) (first_object ex_ends1)
              (second_object ex_ends1_bug))) [] =
   accepts (snd (post_call (two_separate ex_ends1 ex_ends1_bug) (first_object ex_ends1)
              (second_object ex_ends1_bug))) []"
proof -
  let ?h = "two_separate ex_ends1 ex_ends1_bug"
  let ?o1 = "first_object ex_ends1" and ?o2 = "second_object ex_ends1_bug"
  have v: "valid (view ?h ?o1)" "valid (view ?h ?o2)"
    using ex_valid by simp_all
  have c: "symbols_are_chars (alphabet (view ?h ?o1))" "symbols_are_chars (alphabet (view ?h ?o2))"
    using ex_chars by simp_all
  have r: "are_equivalent ?h ?o1 ?o2 = Some (False, Some ''0'')"
    by (rule spec_scenarios)
  have "length ([] :: string) < length ''0''" by simp
  with witness_is_shortest [OF v c r] r show ?thesis by blast
qed

text \<open>
  Claim C3 as stated fails where a symbol has three characters: the search finds the
  one-symbol word \<open>abc\<close> first, and the word \<open>dd\<close>, of two characters, tells the
  automatons apart.
\<close>

theorem witness_not_shortest_on_tokens:
  "valid (view (two_separate ex_long_token ex_reject_all) (first_object ex_long_token)) \<and>
   valid (view (two_separate ex_long_token ex_reject_all) (second_object ex_reject_all)) \<and>
   are_equivalent (two_separate ex_long_token ex_reject_all) (first_object ex_long_token)
     (second_object ex_reject_all) = Some (False, Some ''abc'') \<and>
   length ''dd'' < length ''abc'' \<and>
   over_alphabet (union_alphabet (two_separate ex_long_token ex_reject_all)
     (first_object ex_long_token) (second_object ex_reject_all)) ''dd'' \<and>
   accepts (fst (post_call (two_separate ex_long_token ex_reject_all)
              (first_object ex_long_token) (second_object ex_reject_all))) ''dd'' \<noteq>
   accepts (snd (post_call (two_separate ex_long_token ex_reject_all)
              (first_object ex_long_token) (second_object ex_reject_all))) ''dd''"
  by code_simp

text \<open>
  Claim C4, as the code has it. When \<open>SINK_STATE\<close> is not accepting and no transition
  leads from it to another state (as in every valid automaton without a state of that
  name), and the accepting set is not the same object as the state set, \<open>accepts\<close> gives
  the same answer before and after \<open>complete_with_sink\<close>, on every word.
\<close>

theorem completion_preserves_language:
  assumes "sink_is_trap (view h self) \<or>
           (valid (view h self) \<and> SINK_STATE \<notin> set (states (view h self)))"
    and "accept_states_at self \<noteq> states_at self"
  shows "accepts (view (complete_with_sink h self) self) word = accepts (view h self) word"
  using assms complete_preserves_accepts valid_no_sink_trap by blast

text \<open>
  The first scenario of the specification: the word \<open>01\<close> is rejected before and after
  completion.
\<close>

theorem completion_preserves_language_witness:
  "accepts (view (complete_with_sink (two_separate ex_single ex_single)
              (first_object ex_single)) (first_object ex_single)) ''01'' =
     accepts ex_single ''01'' \<and>
   \<not> accepts ex_single ''01''"
proof -
  let ?h = "two_separate ex_single ex_single" and ?o = "first_object ex_single"
  have t: "sink_is_trap (view ?h ?o) \<or>
           (valid (view ?h ?o) \<and> SINK_STATE \<notin> set (states (view ?h ?o)))"
    using ex_trap(1) by simp
  have a: "accept_states_at ?o \<noteq> states_at ?o" by simp
  have "\<not> accepts ex_single ''01''" by code_simp
  with completion_preserves_language [OF t a, of "''01''"] show ?thesis by simp
qed

text \<open>
  Claim C4 as stated fails in two ways. For a valid automaton with an accepting state of
  its own called \<open>SINK_STATE\<close>, completion sends the missing transition there. For
  \<open>DFA(S, {'a'}, 'q0', S, {})\<close>, valid and with no state of that name,
  \<open>self.states.add(sink)\<close> adds the sink to the set that is the accepting set too. In
  both the word \<open>a\<close>, rejected before, is accepted after.
\<close>

theorem completion_changes_language:
  "valid ex_collide \<and> over_alphabet (alphabet ex_collide) ''a'' \<and>
   accept_states_at (first_object ex_collide) \<noteq> states_at (first_object ex_collide) \<and>
   \<not> accepts ex_collide ''a'' \<and>
   accepts (view (complete_with_sink (two_separate ex_collide ex_plain)
              (first_object ex_collide)) (first_object ex_collide)) ''a'' \<and>
   valid (view ex_alias_heap ex_alias) \<and>
   SINK_STATE \<notin> set (states (view ex_alias_heap ex_alias)) \<and>
   over_alphabet (alphabet (view ex_alias_heap ex_alias)) ''a'' \<and>
   \<not> accepts (view ex_alias_heap ex_alias) ''a'' \<and>
   accepts (view (complete_with_sink ex_alias_heap ex_alias) ex_alias) ''a''"
  by code_simp

text \<open>
  Claim C5, as the code has it. For a valid incomplete automaton that has no state called
  \<open>SINK_STATE\<close>, \<open>complete_with_sink\<close> adds exactly that one state; it is not
  accepting when the accepting set is not the same object as the state set.
\<close>

theorem completion_adds_sink:
  assumes "valid (view h self)" "\<not> is_complete (view h self)"
    and "SINK_STATE \<notin> set (states (view h self))"
  shows "states (view (complete_with_sink h self) self) =
           states (view h self) @ [SINK_STATE] \<and>
         (accept_states_at self \<noteq> states_at self \<longrightarrow>
            SINK_STATE \<notin> set (accept_states (view (complete_with_sink h self) self)))"
  using assms by (auto simp: complete_sets valid_def)

text \<open>
  The first scenario of the specification: the states after completion are \<open>q0\<close> and
  the sink.
\<close>

theorem completion_adds_sink_witness:
  "states (view (complete_with_sink (two_separate ex_single ex_single)
             (first_object ex_single)) (first_object ex_single)) = [''q0'', ''SINK_STATE''] \<and>
   SINK_STATE \<notin> set (accept_states (view (complete_with_sink (two_separate ex_single ex_single)
             (first_object ex_single)) (first_object ex_single)))"
proof -
  let ?h = "two_separate ex_single ex_single" and ?o = "first_object ex_single"
  have h: "valid (view ?h ?o)" "\<not> is_complete (view ?h ?o)"
    "SINK_STATE \<notin> set (states (view ?h ?o))"
    by code_simp+
  have a: "accept_states_at ?o \<noteq> states_at ?o" by simp
  have "states (view ?h ?o) @ [SINK_STATE] = [''q0'', ''SINK_STATE'']" by code_simp
  with completion_adds_sink [OF h] a show ?thesis by simp
qed

text \<open>
  Claim C5 as stated fails in two ways. The sink is the fixed name \<open>SINK_STATE\<close>: for a
  valid incomplete automaton that has a state of that name completion adds no state, and
  the state it uses as the sink is accepting here. And with one set object as state set
  and accepting set, the sink that completion adds is accepting.
\<close>

theorem completion_sink_not_fresh:
  "valid ex_collide \<and> \<not> is_complete ex_collide \<and>
   states (view (complete_with_sink (two_separate ex_collide ex_plain)
             (first_object ex_collide)) (first_object ex_collide)) = states ex_collide \<and>
   SINK_STATE \<in> set (accept_states (view (complete_with_sink (two_separate ex_collide ex_plain)
             (first_object ex_collide)) (first_object ex_collide))) \<and>
   valid (view ex_alias_heap ex_alias) \<and> \<not> is_complete (view ex_alias_heap ex_alias) \<and>
   SINK_STATE \<notin> set (states (view ex_alias_heap ex_alias)) \<and>
   SINK_STATE \<in> set (accept_states (view (complete_with_sink ex_alias_heap ex_alias) ex_alias))"
  by code_simp

text \<open>
  Claim C6. After \<open>complete_with_sink\<close> every state has a transition on every symbol of
  the alphabet, whatever fields hold the same object. In \<open>are_equivalent\<close>, for valid
  automatons, whatever the two objects share, and for every pair the search ever puts on
  the queue (only such pairs are dequeued) and every symbol of the union alphabet, both
  lookups find a successor: the branch that skips a symbol is never taken. When the search
  starts the second automaton is complete; so is the first, unless the two have one state
  set and two dicts (then the completion of the second can add the sink to the state set
  of the first, which the search does not reach there).
\<close>

theorem lookups_always_succeed:
  assumes "valid (view h o1)" "valid (view h o2)"
  shows "is_complete (view (complete_with_sink h o1) o1) \<and>
         is_complete (view (complete_with_sink h o2) o2) \<and>
         is_complete (snd (post_call h o1 o2)) \<and>
         (states_at o1 \<noteq> states_at o2 \<or> transitions_at o1 = transitions_at o2 \<longrightarrow>
            is_complete (fst (post_call h o1 o2))) \<and>
         (\<forall>x \<in> set (snd (bfs h o1 o2)).
            \<forall>a \<in> set (union_alphabet h o1 o2).
              fmlookup (transitions (fst (post_call h o1 o2))) (fst x, a) \<noteq> None \<and>
              fmlookup (transitions (snd (post_call h o1 o2))) (snd x, a) \<noteq> None)"
  using lookups_defined [OF assms] is_complete_complete post_call_complete1 post_call_complete2
  by blast

text \<open>
  In the first scenario the pair of the two sinks is put on the queue, and the sink has a
  transition on \<open>1\<close>.
\<close>

theorem lookups_always_succeed_witness:
  "is_complete (view (complete_with_sink (two_separate ex_single ex_single)
      (first_object ex_single)) (first_object ex_single)) \<and>
   fmlookup (transitions (fst (post_call (two_separate ex_single ex_single)
      (first_object ex_single) (second_object ex_single)))) (''SINK_STATE'', ''1'') \<noteq> None"
proof -
  let ?h = "two_separate ex_single ex_single"
  let ?o1 = "first_object ex_single" and ?o2 = "second_object ex_single"
  have v: "valid (view ?h ?o1)" "valid (view ?h ?o2)"
    using ex_valid by simp_all
  have x: "(''SINK_STATE'', ''SINK_STATE'') \<in> set (snd (bfs ?h ?o1 ?o2))"
    by code_simp
  have a: "''1'' \<in> set (union_alphabet ?h ?o1 ?o2)"
    by code_simp
  from lookups_always_succeed [OF v] x a
  show ?thesis by fastforce
qed

text \<open>
  Claim C7. A second call of \<open>complete_with_sink\<close> changes nothing: the heap after two
  calls is the heap after one, so every set and every dict is the same, whatever fields
  hold the same object.
\<close>

theorem completion_idempotent:
  "complete_with_sink (complete_with_sink h self) self = complete_with_sink h self"
proof -
  have "is_complete (view (complete_with_sink h self) self)"
    by (rule is_complete_complete)
  then show ?thesis
    by (simp add: complete_with_sink_def [of "complete_with_sink h self"])
qed

text \<open>
  Claim C8. \<open>accepts\<close> returns a truth value on every automaton and word: \<open>False\<close> when
  the run finds no transition, and otherwise whether the state reached at the end of the
  word is accepting. The run finds no transition exactly when at some position \<open>i\<close> the
  state \<open>p\<close> reached by the first \<open>i\<close> characters has no entry for the next one.
\<close>

theorem accepts_missing_transition:
  "accepts d word =
     (case follow (transitions d) (start_state d) word of
        None \<Rightarrow> False
      | Some r \<Rightarrow> r \<in> set (accept_states d)) \<and>
   (follow (transitions d) (start_state d) word = None) =
     (\<exists>i p. i < length word \<and>
        follow (transitions d) (start_state d) (take i word) = Some p \<and>
        fmlookup (transitions d) (p, [word ! i]) = None)"
  using follow_None_iff [of "transitions d" "start_state d" word]
  by (simp add: accepts_def accepts_follow)

text \<open>
  Claim C9, as the code has it. For valid automatons \<open>are_equivalent\<close> returns a result
  and the pairs it has put on the queue are pairwise distinct; they are at most as many
  as the product of the numbers of states after completion, unless the two automatons
  have one transitions dict and two state sets. The last part is how a pair gets on the
  queue: one pass of the \<open>for\<close> loop appends the same pairs to the queue and to
  \<open>visited\<close>, no pair twice and none that was visited already.
\<close>

theorem search_terminates_bounded:
  assumes "valid (view h o1)" "valid (view h o2)"
  shows "are_equivalent h o1 o2 \<noteq> None \<and>
         distinct (snd (bfs h o1 o2)) \<and>
         (transitions_at o1 \<noteq> transitions_at o2 \<or> states_at o1 = states_at o2 \<longrightarrow>
            length (snd (bfs h o1 o2)) \<le>
              card (set (states (fst (post_call h o1 o2)))) *
              card (set (states (snd (post_call h o1 o2))))) \<and>
         (\<forall>t1 t2 x as queue visited parent.
            \<exists>new parent'.
              for_symbols t1 t2 x as (queue, visited, parent) =
                (queue @ new, visited @ new, parent') \<and>
              distinct new \<and> set new \<inter> set visited = {})"
proof -
  have "\<exists>new parent'.
          for_symbols t1 t2 x as (queue, visited, parent) =
            (queue @ new, visited @ new, parent') \<and>
          distinct new \<and> set new \<inter> set visited = {}"
    for t1 t2 x as queue visited parent
  proof -
    obtain queue' visited' parent' where
      fs: "for_symbols t1 t2 x as (queue, visited, parent) = (queue', visited', parent')"
      by (metis prod_cases3)
    from for_symbols_shape [OF fs] fs show ?thesis by blast
  qed
  with are_equivalent_returns [of h o1 o2] bfs_distinct [of h o1 o2] bfs_visited_count [OF assms]
  show ?thesis by blast
qed

text \<open>
  The second scenario of the specification.
\<close>

theorem search_terminates_bounded_witness:
  "are_equivalent (two_separate ex_ends1 ex_ends1_bug) (first_object ex_ends1)
     (second_object ex_ends1_bug) \<noteq> None \<and>
   distinct (snd (bfs (two_separate ex_ends1 ex_ends1_bug) (first_object ex_ends1)
     (second_object ex_ends1_bug))) \<and>
   length (snd (bfs (two_separate ex_ends1 ex_ends1_bug) (first_object ex_ends1)
     (second_object ex_ends1_bug))) \<le>
     card (set (states (fst (post_call (two_separate ex_ends1 ex_ends1_bug)
       (first_object ex_ends1) (second_object ex_ends1_bug))))) *
     card (set (states (snd (post_call (two_separate ex_ends1 ex_ends1_bug)
       (first_object ex_ends1) (second_object ex_ends1_bug)))))"
proof -
  let ?h = "two_separate ex_ends1 ex_ends1_bug"
  let ?o1 = "first_object ex_ends1" and ?o2 = "second_object ex_ends1_bug"
  have v: "valid (view ?h ?o1)" "valid (view ?h ?o2)"
    using ex_valid by simp_all
  have "transitions_at ?o1 \<noteq> transitions_at ?o2" by simp
  with search_terminates_bounded [OF v] show ?thesis by blast
qed

text \<open>
  Claim C9 as stated fails for two valid automatons built on one dict: the completion of
  the first fills the dict for both, the second is then complete and gets no sink in its
  state set, but its runs reach the sink. Seven pairs are put on the queue; the automatons
  have three and two states.
\<close>

theorem search_exceeds_bound_on_shared_dict:
  "valid (view ex_shared_dict_heap ex_shared_dict1) \<and>
   valid (view ex_shared_dict_heap ex_shared_dict2) \<and>
   length (snd (bfs ex_shared_dict_heap ex_shared_dict1 ex_shared_dict2)) = 7 \<and>
   card (set (states (fst (post_call ex_shared_dict_heap ex_shared_dict1 ex_shared_dict2)))) *
   card (set (states (snd (post_call ex_shared_dict_heap ex_shared_dict1 ex_shared_dict2)))) = 6"
  by code_simp

text \<open>
  Claim C10, as the code has it. \<open>are_equivalent\<close> assigns a new alphabet to both
  objects and nothing else; of the sets in the heap it changes the two state sets at
  most, and of the dicts the two transition dicts. So the start states stay, and the
  accepting set of an automaton stays when it is not the same object as one of the two
  state sets.
\<close>

theorem are_equivalent_frame:
  "snd (prepare h o1 o2) =
     (o1\<lparr>alphabet_at := new_set_address o1 o2\<rparr>, o2\<lparr>alphabet_at := new_set_address o1 o2\<rparr>) \<and>
   start_state (fst (post_call h o1 o2)) = start_state (view h o1) \<and>
   start_state (snd (post_call h o1 o2)) = start_state (view h o2) \<and>
   (accept_states_at o1 \<noteq> states_at o1 \<and> accept_states_at o1 \<noteq> states_at o2 \<longrightarrow>
      accept_states (fst (post_call h o1 o2)) = accept_states (view h o1)) \<and>
   (accept_states_at o2 \<noteq> states_at o1 \<and> accept_states_at o2 \<noteq> states_at o2 \<longrightarrow>
      accept_states (snd (post_call h o1 o2)) = accept_states (view h o2)) \<and>
   (\<forall>r. r \<noteq> states_at o1 \<and> r \<noteq> states_at o2 \<and> r \<noteq> new_set_address o1 o2 \<longrightarrow>
      sets (fst (prepare h o1 o2)) r = sets h r) \<and>
   (\<forall>r. r \<noteq> transitions_at o1 \<and> r \<noteq> transitions_at o2 \<longrightarrow>
      dicts (fst (prepare h o1 o2)) r = dicts h r)"
proof -
  have "dicts (heap2 h o1 o2) r = dicts h r"
    if "r \<noteq> transitions_at o1 \<and> r \<noteq> transitions_at o2" for r
    using that by (simp add: heap2_def heap1_def complete_dicts_other heap0_sets)
  then show ?thesis
    using prepare_accept1 [of o1 o2 h] prepare_accept2 [of o2 o1 h] prepare_sets_frame [of _ o1 o2 h]
    by (simp add: prepare_unfold object1_def object2_def)
qed

text \<open>
  The second scenario of the specification: the first automaton still accepts in \<open>q1\<close>
  alone and starts in \<open>q0\<close>.
\<close>

theorem are_equivalent_frame_witness:
  "accept_states (fst (post_call (two_separate ex_ends1 ex_ends1_bug) (first_object ex_ends1)
     (second_object ex_ends1_bug))) = [''q1''] \<and>
   start_state (fst (post_call (two_separate ex_ends1 ex_ends1_bug) (first_object ex_ends1)
     (second_object ex_ends1_bug))) = ''q0''"
proof -
  let ?h = "two_separate ex_ends1 ex_ends1_bug"
  let ?o1 = "first_object ex_ends1" and ?o2 = "second_object ex_ends1_bug"
  have a: "accept_states_at ?o1 \<noteq> states_at ?o1 \<and> accept_states_at ?o1 \<noteq> states_at ?o2"
    by simp
  have "accept_states ex_ends1 = [''q1'']" "start_state ex_ends1 = ''q0''"
    by (simp_all add: ex_ends1_def)
  with are_equivalent_frame [of ?h ?o1 ?o2] a show ?thesis by simp
qed

text \<open>
  Claim C10 as stated fails for \<open>DFA(S, {'a'}, 'q0', S, {})\<close> against
  \<open>DFA({'q0'}, {'a'}, 'q0', {'q0'}, {})\<close>: after the call the accepting set of the first
  holds \<open>SINK_STATE\<close>.
\<close>

theorem are_equivalent_changes_shared_accepting:
  "valid (view ex_alias_heap ex_alias) \<and> valid (view ex_alias_heap ex_alias_other) \<and>
   accept_states (view ex_alias_heap ex_alias) = [''q0''] \<and>
   accept_states (fst (post_call ex_alias_heap ex_alias ex_alias_other)) =
     [''q0'', ''SINK_STATE'']"
  by code_simp

end
